theory Spec2Isabelle
  imports Main "HOL-Library.AList"
begin

unbundle bit_operations_syntax

section \<open>parex: parallel execution of shell commands\<close>

text \<open>
  A shallow embedding of \<^verbatim>\<open>src/parex.py\<close>. The class \<^verbatim>\<open>TaskManager\<close> keeps five
  dictionaries; \<^verbatim>\<open>execute\<close> spawns a command through a shell and records its three pipe
  descriptors, \<^verbatim>\<open>wait\<close> polls the output and error pipes until no process is tracked.

  Python integers (descriptors, process ids, epoll masks) are \<open>int\<close>. A dictionary is an
  association list read with \<open>map_of\<close>, written with \<open>AList.update\<close> and
  \<open>AList.delete\<close>; a missing key on a subscript or a \<^verbatim>\<open>del\<close> is the value
  \<open>Raise KeyError\<close>. Byte strings are \<open>string\<close>.
\<close>

subsection \<open>Constants (source lines 40 to 57)\<close>

type_synonym fd = int
type_synonym pid = int

definition EPOLLIN :: int where "EPOLLIN = 0x001"
definition EPOLLPRI :: int where "EPOLLPRI = 0x002"
definition EPOLLOUT :: int where "EPOLLOUT = 0x004"
definition EPOLLERR :: int where "EPOLLERR = 0x008"
definition EPOLLHUP :: int where "EPOLLHUP = 0x010"
definition EPOLLRDHUP :: int where "EPOLLRDHUP = 0x2000"
definition EPOLLONESHOT :: int where "EPOLLONESHOT = push_bit 30 1"
definition EPOLLET :: int where "EPOLLET = push_bit 31 1"

definition NONE :: int where "NONE = 0"
definition READ :: int where "READ = EPOLLIN"
definition WRITE :: int where "WRITE = EPOLLOUT"
definition ERROR :: int where "ERROR = EPOLLERR OR EPOLLHUP OR EPOLLRDHUP"

definition FDIN :: int where "FDIN = READ"
definition FDOUT :: int where "FDOUT = WRITE"
definition FDERR :: int where "FDERR = ERROR"

subsection \<open>Errors and outcomes\<close>

text \<open>
  The exceptions the code can raise: \<^verbatim>\<open>KeyError\<close> from a dictionary subscript or
  \<^verbatim>\<open>del\<close>, \<^verbatim>\<open>ValueError\<close> from \<^verbatim>\<open>tuple.index\<close>, and whatever \<^verbatim>\<open>Popen\<close>,
  \<^verbatim>\<open>os.read\<close> and the poller raise (\<^verbatim>\<open>OSError\<close>, \<^verbatim>\<open>IOError\<close>). An operation
  returns its outcome together with the state it leaves behind, since a Python exception
  keeps every mutation made before it.
\<close>

datatype error = KeyError | ValueError | OSError | IOError

datatype 'a outcome = Return 'a | Raise error

subsection \<open>The manager (source lines 65 to 72)\<close>

text \<open>
  \<open>processgbprot\<close> holds the three file objects of a process; a file object is named by
  its descriptor. \<open>data\<close> is keyed by the result of \<^verbatim>\<open>self.fds.get(fd, None)\<close>, which
  may be \<^verbatim>\<open>None\<close>, hence the key type \<open>pid option\<close>.
\<close>

record manager =
  cwd :: string
  processes :: "(pid \<times> (fd \<times> fd \<times> fd)) list"
  processgbprot :: "(pid \<times> (fd \<times> fd \<times> fd)) list"
  fds :: "(fd \<times> pid) list"
  fdtype :: "(fd \<times> int) list"
  data :: "(pid option \<times> string) list"

definition TaskManager :: "string \<Rightarrow> manager" where
  "TaskManager dir =
     \<lparr>cwd = dir, processes = [], processgbprot = [], fds = [], fdtype = [], data = []\<rparr>"

subsection \<open>execute (source lines 74 to 91)\<close>

text \<open>
  \<^verbatim>\<open>Popen\<close> belongs to the operating system: it is a parameter \<open>popen\<close> that maps the
  arguments of the call to an exception or to the new process (its pid and the descriptors
  of its three pipes). \<open>popen_call\<close> is the call that lines 75 to 78 make. The
  \<^verbatim>\<open>print\<close> of line 76 writes to standard output and touches no field of the manager.
\<close>

record popen_args =
  args :: string
  shell :: bool
  close_fds :: bool

record popen =
  ppid :: pid
  stdin :: fd
  stdout :: fd
  stderr :: fd

definition fullcmd :: "manager \<Rightarrow> string \<Rightarrow> string" where
  "fullcmd s cmd = ''cd '' @ cwd s @ ''; '' @ cmd"

definition popen_call :: "manager \<Rightarrow> string \<Rightarrow> popen_args" where
  "popen_call s cmd = \<lparr>args = fullcmd s cmd, shell = True, close_fds = True\<rparr>"

definition register_process :: "popen \<Rightarrow> manager \<Rightarrow> manager" where
  "register_process p s =
     s\<lparr>processes := AList.update (ppid p) (stdin p, stdout p, stderr p) (processes s),
       processgbprot := AList.update (ppid p) (stdin p, stdout p, stderr p) (processgbprot s),
       fds := AList.update (stderr p) (ppid p)
                (AList.update (stdout p) (ppid p)
                  (AList.update (stdin p) (ppid p) (fds s))),
       fdtype := AList.update (stderr p) FDERR
                   (AList.update (stdout p) FDOUT
                     (AList.update (stdin p) FDIN (fdtype s)))\<rparr>"

definition execute :: "(popen_args \<Rightarrow> error + popen) \<Rightarrow> string \<Rightarrow> manager \<Rightarrow> pid outcome \<times> manager" where
  "execute popen cmd s =
     (case popen (popen_call s cmd) of
        Inl e \<Rightarrow> (Raise e, s)
      | Inr p \<Rightarrow> (Return (ppid p), register_process p s))"

subsection \<open>wait (source lines 93 to 117)\<close>

text \<open>
  One readiness event is the pair \<^verbatim>\<open>(fd, state)\<close> that \<^verbatim>\<open>iop.poll\<close> returns,
  together with what \<^verbatim>\<open>os.read(fd, 4096)\<close> would give at that moment: an exception or
  the bytes the pipe holds (the read returns at most 4096 of them).
\<close>

type_synonym event = "fd \<times> int \<times> (error + string)"

text \<open>
  The state of a running \<^verbatim>\<open>wait\<close>: the manager, and the log of descriptors whose file
  object the loop has closed (line 107), most recent first.
\<close>

type_synonym state = "manager \<times> fd list"

text \<open>\<^verbatim>\<open>self.fds.get(x, None)\<close> used as a condition: a pid is true unless it is 0.\<close>

definition truthy :: "manager \<Rightarrow> fd \<Rightarrow> bool" where
  "truthy s x = (case map_of (fds s) x of None \<Rightarrow> False | Some p \<Rightarrow> p \<noteq> 0)"

fun index :: "fd \<times> fd \<times> fd \<Rightarrow> fd \<Rightarrow> nat option" where
  "index (a, b, c) x =
     (if a = x then Some 0 else if b = x then Some 1 else if c = x then Some 2 else None)"

fun select :: "fd \<times> fd \<times> fd \<Rightarrow> nat \<Rightarrow> fd" where
  "select (a, b, c) k = (if k = 0 then a else if k = 1 then b else c)"

fun tuple_list :: "fd \<times> fd \<times> fd \<Rightarrow> fd list" where
  "tuple_list (a, b, c) = [a, b, c]"

text \<open>Lines 104 to 107: the bytes \<open>d\<close>, and the close of the file object on a hang-up.\<close>

definition read_or_close :: "event \<Rightarrow> state \<Rightarrow> string outcome \<times> state" where
  "read_or_close ev st =
     (case ev of (fd, state, rd) \<Rightarrow>
      case st of (s, closed) \<Rightarrow>
        if state = READ then
          (case rd of Inl e \<Rightarrow> (Raise e, st) | Inr bytes \<Rightarrow> (Return (take 4096 bytes), st))
        else if state = EPOLLHUP \<or> state = EPOLLRDHUP then
          (case map_of (fds s) fd of
             None \<Rightarrow> (Raise KeyError, st)
           | Some p \<Rightarrow>
              (case map_of (processgbprot s) p of
                 None \<Rightarrow> (Raise KeyError, st)
               | Some files \<Rightarrow>
                  (case map_of (processes s) p of
                     None \<Rightarrow> (Raise KeyError, st)
                   | Some t \<Rightarrow>
                      (case index t fd of
                         None \<Rightarrow> (Raise ValueError, st)
                       | Some k \<Rightarrow> (Return [], (s, select files k # closed))))))
        else (Return [], st))"

text \<open>Lines 110 to 114: the descriptor leaves \<open>fds\<close>, then the retirement test.\<close>

definition remaining :: "manager \<Rightarrow> fd \<times> fd \<times> fd \<Rightarrow> fd list" where
  "remaining s t = filter (truthy s) (tuple_list t)"

definition end_of_stream :: "fd \<Rightarrow> manager \<Rightarrow> unit outcome \<times> manager" where
  "end_of_stream fd s =
     (case map_of (fds s) fd of
        None \<Rightarrow> (Raise KeyError, s)
      | Some p \<Rightarrow>
         (let s1 = s\<lparr>fds := AList.delete fd (fds s)\<rparr> in
          case map_of (processes s1) p of
            None \<Rightarrow> (Raise KeyError, s1)
          | Some t \<Rightarrow>
             if length (remaining s1 t) = 1 then
               (let s2 = s1\<lparr>processes := AList.delete p (processes s1)\<rparr> in
                case map_of (processgbprot s2) p of
                  None \<Rightarrow> (Raise KeyError, s2)
                | Some _ \<Rightarrow> (Return (), s2\<lparr>processgbprot := AList.delete p (processgbprot s2)\<rparr>))
             else (Return (), s1)))"

text \<open>Lines 116 and 117: \<^verbatim>\<open>setdefault\<close> and \<^verbatim>\<open>write\<close>.\<close>

definition append_data :: "pid option \<Rightarrow> string \<Rightarrow> manager \<Rightarrow> manager" where
  "append_data p d s =
     s\<lparr>data := AList.update p ((case map_of (data s) p of None \<Rightarrow> [] | Some b \<Rightarrow> b) @ d) (data s)\<rparr>"

text \<open>The body of the \<^verbatim>\<open>for fd, state in active\<close> loop.\<close>

definition dispatch :: "event \<Rightarrow> state \<Rightarrow> unit outcome \<times> state" where
  "dispatch ev st =
     (case read_or_close ev st of
        (Raise e, st1) \<Rightarrow> (Raise e, st1)
      | (Return d, (s1, closed1)) \<Rightarrow>
          if length d = 0 then
            (case end_of_stream (fst ev) s1 of (r, s2) \<Rightarrow> (r, (s2, closed1)))
          else (Return (), (append_data (map_of (fds s1) (fst ev)) d s1, closed1)))"

fun dispatch_all :: "event list \<Rightarrow> state \<Rightarrow> unit outcome \<times> state" where
  "dispatch_all [] st = (Return (), st)"
| "dispatch_all (ev # evs) st =
     (case dispatch ev st of
        (Raise e, st1) \<Rightarrow> (Raise e, st1)
      | (Return _, st1) \<Rightarrow> dispatch_all evs st1)"

text \<open>
  Line 96: the descriptors registered with the poller. The subscript
  \<^verbatim>\<open>self.fdtype[x]\<close> raises on a descriptor that \<open>fdtype\<close> lacks.
\<close>

fun watch_list :: "(fd \<times> int) list \<Rightarrow> fd list \<Rightarrow> fd list outcome" where
  "watch_list ft [] = Return []"
| "watch_list ft (x # xs) =
     (case map_of ft x of
        None \<Rightarrow> Raise KeyError
      | Some ty \<Rightarrow>
         (case watch_list ft xs of
            Raise e \<Rightarrow> Raise e
          | Return ws \<Rightarrow> Return (if ty = FDOUT \<or> ty = FDERR then x # ws else ws)))"

definition watch :: "manager \<Rightarrow> fd list outcome" where
  "watch s = watch_list (fdtype s) (map fst (fds s))"

text \<open>
  The poller belongs to the operating system. Each turn of the \<^verbatim>\<open>while\<close> loop meets one
  \<open>poll_outcome\<close>: creating the poller fails (line 95), registering or polling fails
  (lines 97 and 99), or the kernel has a list of ready descriptors, of which a poller
  reports those registered with it.
\<close>

datatype poll_outcome = CreateFails error | PollFails error | Ready "event list"

definition active :: "fd list \<Rightarrow> event list \<Rightarrow> event list" where
  "active registered ready = filter (\<lambda>ev. fst ev \<in> set registered) ready"

text \<open>
  The loop runs on a schedule of poll outcomes, one for each turn. \<open>Blocked\<close> is the loop
  still running when the schedule ends: \<^verbatim>\<open>wait\<close> has not returned.
\<close>

datatype wait_result = Returned | Raised error | Blocked

definition iteration :: "poll_outcome \<Rightarrow> state \<Rightarrow> unit outcome \<times> state" where
  "iteration po st =
     (case po of
        CreateFails e \<Rightarrow> (Raise e, st)
      | PollFails e \<Rightarrow>
         (case watch (fst st) of Raise e' \<Rightarrow> (Raise e', st) | Return _ \<Rightarrow> (Raise e, st))
      | Ready ready \<Rightarrow>
         (case watch (fst st) of
            Raise e' \<Rightarrow> (Raise e', st)
          | Return registered \<Rightarrow> dispatch_all (active registered ready) st))"

fun wait :: "poll_outcome list \<Rightarrow> state \<Rightarrow> wait_result \<times> state" where
  "wait [] st = (if processes (fst st) = [] then (Returned, st) else (Blocked, st))"
| "wait (po # rest) st =
     (if processes (fst st) = [] then (Returned, st)
      else case iteration po st of
        (Raise e, st1) \<Rightarrow> (Raised e, st1)
      | (Return _, st1) \<Rightarrow> wait rest st1)"

subsection \<open>Well-formed managers\<close>

text \<open>
  What \<^verbatim>\<open>__init__\<close> and \<^verbatim>\<open>execute\<close> establish and \<^verbatim>\<open>wait\<close> keeps. A dictionary has
  each key once. A tracked process has a pid other than 0 and three different
  descriptors; its input descriptor is registered under its pid with the role \<open>FDIN\<close>;
  its output and error descriptors are registered under its pid or not at all, and one
  of them still is; its file objects are those of its descriptors. A registered
  descriptor has a role, and one with the role \<open>FDOUT\<close> or \<open>FDERR\<close> is the output or
  error descriptor of the tracked process it is registered under.
\<close>

definition proc_ok :: "manager \<Rightarrow> pid \<Rightarrow> fd \<times> fd \<times> fd \<Rightarrow> bool" where
  "proc_ok s p t =
     (case t of (i, out, err) \<Rightarrow>
        p \<noteq> 0 \<and> i \<noteq> out \<and> i \<noteq> err \<and> out \<noteq> err
        \<and> map_of (fds s) i = Some p \<and> map_of (fdtype s) i = Some FDIN
        \<and> (map_of (fds s) out = None \<or> map_of (fds s) out = Some p)
        \<and> (map_of (fds s) err = None \<or> map_of (fds s) err = Some p)
        \<and> (map_of (fds s) out = Some p \<or> map_of (fds s) err = Some p)
        \<and> map_of (processgbprot s) p = Some t)"

definition fd_ok :: "manager \<Rightarrow> fd \<Rightarrow> pid \<Rightarrow> bool" where
  "fd_ok s x p =
     (case map_of (fdtype s) x of
        None \<Rightarrow> False
      | Some ty \<Rightarrow>
         ty = FDOUT \<or> ty = FDERR \<longrightarrow>
           (case map_of (processes s) p of
              None \<Rightarrow> False
            | Some (i, out, err) \<Rightarrow> x = out \<or> x = err))"

definition well_formed :: "manager \<Rightarrow> bool" where
  "well_formed s =
     (distinct (map fst (processes s)) \<and> distinct (map fst (fds s))
      \<and> list_all (\<lambda>(p, t). proc_ok s p t) (processes s)
      \<and> list_all (\<lambda>(x, p). fd_ok s x p) (fds s))"

text \<open>
  A descriptor is watched when line 96 puts it in the registration list: it is a key of
  \<open>fds\<close> and its role is \<open>FDOUT\<close> or \<open>FDERR\<close>.
\<close>

definition watched :: "manager \<Rightarrow> fd \<Rightarrow> bool" where
  "watched s x =
     (case map_of (fds s) x of
        None \<Rightarrow> False
      | Some _ \<Rightarrow>
         (case map_of (fdtype s) x of None \<Rightarrow> False | Some ty \<Rightarrow> ty = FDOUT \<or> ty = FDERR))"

text \<open>
  What the operating system gives a new process: a pid other than 0 that no tracked
  process has, and three different descriptors, none of them a descriptor of a tracked
  process. While \<^verbatim>\<open>wait\<close> has not started, or once it has returned, every descriptor
  of a tracked process is open in this program, so the kernel cannot hand it out again.
\<close>

definition fresh :: "popen \<Rightarrow> manager \<Rightarrow> bool" where
  "fresh p s =
     (ppid p \<noteq> 0 \<and> map_of (processes s) (ppid p) = None
      \<and> stdin p \<noteq> stdout p \<and> stdin p \<noteq> stderr p \<and> stdout p \<noteq> stderr p
      \<and> list_all (\<lambda>(q, t). stdin p \<notin> set (tuple_list t) \<and> stdout p \<notin> set (tuple_list t)
                        \<and> stderr p \<notin> set (tuple_list t)) (processes s))"

subsection \<open>A running example\<close>

text \<open>
  One process with pid 100 whose pipes are the descriptors 5 (input), 6 (output) and
  8 (error), launched from a fresh manager.
\<close>

definition proc100 :: popen where
  "proc100 = \<lparr>ppid = 100, stdin = 5, stdout = 6, stderr = 8\<rparr>"

definition one_process :: manager where
  "one_process = register_process proc100 (TaskManager ''.'')"

text \<open>A second process, as the operating system could hand it out next.\<close>

definition proc101 :: popen where
  "proc101 = \<lparr>ppid = 101, stdin = 9, stdout = 10, stderr = 11\<rparr>"

section \<open>Properties\<close>

subsection \<open>Values of the constants\<close>

lemma READ_val: "READ = 1"
  by (simp add: READ_def EPOLLIN_def)

lemma EPOLLHUP_val: "EPOLLHUP = 16"
  by (simp add: EPOLLHUP_def)

lemma EPOLLRDHUP_val: "EPOLLRDHUP = 8192"
  by (simp add: EPOLLRDHUP_def)

lemma FDIN_val: "FDIN = 1"
  by (simp add: FDIN_def READ_val)

lemma FDOUT_val: "FDOUT = 4"
  by (simp add: FDOUT_def WRITE_def EPOLLOUT_def)

lemma FDERR_val: "FDERR = 8216"
  by (simp add: FDERR_def ERROR_def EPOLLERR_def EPOLLHUP_def EPOLLRDHUP_def)

lemmas mask_vals = READ_val EPOLLHUP_val EPOLLRDHUP_val FDIN_val FDOUT_val FDERR_val

lemma one_process_eq:
  "one_process = \<lparr>cwd = ''.'', processes = [(100, 5, 6, 8)], processgbprot = [(100, 5, 6, 8)],
     fds = [(5, 100), (6, 100), (8, 100)], fdtype = [(5, 1), (6, 4), (8, 8216)], data = []\<rparr>"
  by (simp add: one_process_def proc100_def register_process_def TaskManager_def mask_vals)

subsection \<open>execute\<close>

text \<open>
  C7: when \<^verbatim>\<open>Popen\<close> raises, \<^verbatim>\<open>execute\<close> raises the same exception to its caller and
  the manager is the one it was called on: tracked set, registries and buffers untouched.
\<close>

theorem spawn_failure_is_synchronous:
  "popen (popen_call s cmd) = Inl e \<Longrightarrow> execute popen cmd s = (Raise e, s)"
  by (simp add: execute_def)

theorem spawn_failure_is_synchronous_witness:
  "execute (\<lambda>_. Inl OSError) ''ls'' one_process = (Raise OSError, one_process)"
  using spawn_failure_is_synchronous [of "\<lambda>_. Inl OSError" one_process "''ls''" OSError] by simp

text \<open>
  C9: the command line handed to \<^verbatim>\<open>Popen\<close> is \<^verbatim>\<open>cd\<close>, the working directory, a
  semicolon and the command, joined as text and run with \<^verbatim>\<open>shell=True\<close>. Its length is
  that of the two strings plus the five characters of the glue, so nothing is escaped or
  inserted, and the outcome of \<^verbatim>\<open>execute\<close> is that of this one call.
\<close>

theorem command_is_prefixed_unescaped:
  "args (popen_call s cmd) = ''cd '' @ cwd s @ ''; '' @ cmd \<and> shell (popen_call s cmd)
   \<and> length (args (popen_call s cmd)) = length (cwd s) + length cmd + 5
   \<and> execute popen cmd s =
       (case popen \<lparr>args = ''cd '' @ cwd s @ ''; '' @ cmd, shell = True, close_fds = True\<rparr> of
          Inl e \<Rightarrow> (Raise e, s) | Inr p \<Rightarrow> (Return (ppid p), register_process p s))"
  by (simp add: popen_call_def fullcmd_def execute_def)

subsection \<open>One event\<close>

text \<open>The ways an event can go, as case rules for the proofs below.\<close>

lemma end_of_stream_cases:
  assumes "end_of_stream fd s = (r, s')"
  obtains
    (nokey) "map_of (fds s) fd = None" "r = Raise KeyError" "s' = s"
  | (noproc) p where "map_of (fds s) fd = Some p" "map_of (processes s) p = None"
      "r = Raise KeyError" "s' = s\<lparr>fds := AList.delete fd (fds s)\<rparr>"
  | (keep) p t where "map_of (fds s) fd = Some p" "map_of (processes s) p = Some t"
      "length (remaining (s\<lparr>fds := AList.delete fd (fds s)\<rparr>) t) \<noteq> 1"
      "r = Return ()" "s' = s\<lparr>fds := AList.delete fd (fds s)\<rparr>"
  | (retire) p t where "map_of (fds s) fd = Some p" "map_of (processes s) p = Some t"
      "length (remaining (s\<lparr>fds := AList.delete fd (fds s)\<rparr>) t) = 1"
      "map_of (processgbprot s) p \<noteq> None" "r = Return ()"
      "s' = s\<lparr>fds := AList.delete fd (fds s), processes := AList.delete p (processes s),
              processgbprot := AList.delete p (processgbprot s)\<rparr>"
  | (retire_nogb) p t where "map_of (fds s) fd = Some p" "map_of (processes s) p = Some t"
      "length (remaining (s\<lparr>fds := AList.delete fd (fds s)\<rparr>) t) = 1"
      "map_of (processgbprot s) p = None" "r = Raise KeyError"
      "s' = s\<lparr>fds := AList.delete fd (fds s), processes := AList.delete p (processes s)\<rparr>"
proof (cases "map_of (fds s) fd")
  case None
  with assms have "r = Raise KeyError" "s' = s" by (simp_all add: end_of_stream_def)
  with None show ?thesis by (rule nokey)
next
  case (Some p)
  let ?s1 = "s\<lparr>fds := AList.delete fd (fds s)\<rparr>"
  show ?thesis
  proof (cases "map_of (processes s) p")
    case None
    with Some assms have "r = Raise KeyError" "s' = ?s1"
      by (simp_all add: end_of_stream_def Let_def)
    with Some None show ?thesis by (rule noproc)
  next
    case t: (Some t)
    show ?thesis
    proof (cases "length (remaining ?s1 t) = 1")
      case False
      with Some t assms have "r = Return ()" "s' = ?s1"
        by (simp_all add: end_of_stream_def Let_def)
      with Some t False show ?thesis by (rule keep)
    next
      case True
      show ?thesis
      proof (cases "map_of (processgbprot s) p")
        case None
        with Some t True assms have "r = Raise KeyError"
          "s' = s\<lparr>fds := AList.delete fd (fds s), processes := AList.delete p (processes s)\<rparr>"
          by (simp_all add: end_of_stream_def Let_def)
        with Some t True None show ?thesis by (rule retire_nogb)
      next
        case g: (Some g)
        with Some t True assms have "r = Return ()"
          "s' = s\<lparr>fds := AList.delete fd (fds s), processes := AList.delete p (processes s),
              processgbprot := AList.delete p (processgbprot s)\<rparr>"
          by (simp_all add: end_of_stream_def Let_def)
        moreover have "map_of (processgbprot s) p \<noteq> None" using g by simp
        ultimately show ?thesis using Some t True by (intro retire)
      qed
    qed
  qed
qed


lemma read_or_close_READ:
  "read_or_close (fd, READ, rd) st =
     (case rd of Inl e \<Rightarrow> (Raise e, st) | Inr b \<Rightarrow> (Return (take 4096 b), st))"
  by (cases st) (simp add: read_or_close_def split: sum.splits)

lemma read_or_close_other:
  "state \<noteq> READ \<Longrightarrow> state \<noteq> EPOLLHUP \<Longrightarrow> state \<noteq> EPOLLRDHUP \<Longrightarrow>
   read_or_close (fd, state, rd) st = (Return [], st)"
  by (cases st) (simp add: read_or_close_def)

lemma read_or_close_hup:
  assumes "state = EPOLLHUP \<or> state = EPOLLRDHUP"
  shows "read_or_close (fd, state, rd) (s, c) =
     (case map_of (fds s) fd of
        None \<Rightarrow> (Raise KeyError, (s, c))
      | Some p \<Rightarrow>
         (case map_of (processgbprot s) p of
            None \<Rightarrow> (Raise KeyError, (s, c))
          | Some files \<Rightarrow>
             (case map_of (processes s) p of
                None \<Rightarrow> (Raise KeyError, (s, c))
              | Some t \<Rightarrow>
                 (case index t fd of
                    None \<Rightarrow> (Raise ValueError, (s, c))
                  | Some k \<Rightarrow> (Return [], (s, select files k # c))))))"
proof -
  have "state \<noteq> READ"
    using assms by (auto simp add: READ_val EPOLLHUP_val EPOLLRDHUP_val)
  then show ?thesis
    using assms by (simp add: read_or_close_def)
qed

lemma dispatch_Raise:
  "read_or_close ev st = (Raise e, st1) \<Longrightarrow> dispatch ev st = (Raise e, st1)"
  by (simp add: dispatch_def)

lemma dispatch_empty:
  "read_or_close ev st = (Return [], (s1, c1)) \<Longrightarrow>
   dispatch ev st = (fst (end_of_stream (fst ev) s1), (snd (end_of_stream (fst ev) s1), c1))"
  by (simp add: dispatch_def split: prod.splits)

lemma dispatch_bytes:
  "read_or_close ev st = (Return d, (s1, c1)) \<Longrightarrow> d \<noteq> [] \<Longrightarrow>
   dispatch ev st = (Return (), (append_data (map_of (fds s1) (fst ev)) d s1, c1))"
  by (simp add: dispatch_def)


lemma read_or_close_hup_Raise:
  assumes "state = EPOLLHUP \<or> state = EPOLLRDHUP"
    and "read_or_close (fd, state, rd) (s, c) = (Raise e, st1)"
  shows "st1 = (s, c)"
proof (cases "map_of (fds s) fd")
  case None
  with assms(2) show ?thesis by (simp add: read_or_close_hup [OF assms(1)])
next
  case p: (Some p)
  show ?thesis
  proof (cases "map_of (processgbprot s) p")
    case None
    with p assms(2) show ?thesis by (simp add: read_or_close_hup [OF assms(1)])
  next
    case g: (Some files)
    show ?thesis
    proof (cases "map_of (processes s) p")
      case None
      with p g assms(2) show ?thesis by (simp add: read_or_close_hup [OF assms(1)])
    next
      case t: (Some t)
      show ?thesis
      proof (cases "index t fd")
        case None
        with p g t assms(2) show ?thesis by (simp add: read_or_close_hup [OF assms(1)])
      next
        case (Some k)
        with p g t assms(2) show ?thesis by (simp add: read_or_close_hup [OF assms(1)])
      qed
    qed
  qed
qed

lemma read_or_close_hup_Return:
  assumes "state = EPOLLHUP \<or> state = EPOLLRDHUP"
    and "read_or_close (fd, state, rd) (s, c) = (Return d, (s1, c1))"
  shows "\<exists>p files t k. map_of (fds s) fd = Some p \<and> map_of (processgbprot s) p = Some files
    \<and> map_of (processes s) p = Some t \<and> index t fd = Some k \<and> s1 = s
    \<and> c1 = select files k # c \<and> d = []"
proof (cases "map_of (fds s) fd")
  case None
  with assms(2) show ?thesis by (simp add: read_or_close_hup [OF assms(1)])
next
  case p: (Some p)
  show ?thesis
  proof (cases "map_of (processgbprot s) p")
    case None
    with p assms(2) show ?thesis by (simp add: read_or_close_hup [OF assms(1)])
  next
    case g: (Some files)
    show ?thesis
    proof (cases "map_of (processes s) p")
      case None
      with p g assms(2) show ?thesis by (simp add: read_or_close_hup [OF assms(1)])
    next
      case t: (Some t)
      show ?thesis
      proof (cases "index t fd")
        case None
        with p g t assms(2) show ?thesis by (simp add: read_or_close_hup [OF assms(1)])
      next
        case (Some k)
        with p g t assms(2) have "s1 = s \<and> c1 = select files k # c \<and> d = []"
          by (auto simp add: read_or_close_hup [OF assms(1)])
        with p g t Some show ?thesis by blast
      qed
    qed
  qed
qed

lemma dispatch_cases:
  assumes "dispatch (fd, state, rd) (s, c) = (r, (s', c'))"
  obtains
    (raise) e where "r = Raise e" "s' = s" "c' = c"
  | (bytes) d where "d \<noteq> []" "state = READ" "r = Return ()" "c' = c"
      "s' = append_data (map_of (fds s) fd) d s"
  | (eos) "end_of_stream fd s = (r, s')" "c' = c" "state \<noteq> EPOLLHUP" "state \<noteq> EPOLLRDHUP"
  | (hup) p files t k where "state = EPOLLHUP \<or> state = EPOLLRDHUP"
      "map_of (fds s) fd = Some p" "map_of (processgbprot s) p = Some files"
      "map_of (processes s) p = Some t" "index t fd = Some k"
      "end_of_stream fd s = (r, s')" "c' = select files k # c"
proof -
  obtain o1 s1 c1 where rc: "read_or_close (fd, state, rd) (s, c) = (o1, (s1, c1))"
    by (metis prod.exhaust)
  consider (a) "state = READ" | (b) "state = EPOLLHUP \<or> state = EPOLLRDHUP"
    | (c) "state \<noteq> READ" "state \<noteq> EPOLLHUP" "state \<noteq> EPOLLRDHUP"
    by blast
  then show ?thesis
  proof cases
    case a
    have nh: "state \<noteq> EPOLLHUP" "state \<noteq> EPOLLRDHUP"
      using a by (simp_all add: READ_val EPOLLHUP_val EPOLLRDHUP_val)
    show ?thesis
    proof (cases rd)
      case (Inl e)
      then have "read_or_close (fd, state, rd) (s, c) = (Raise e, (s, c))"
        using a by (simp add: read_or_close_READ)
      from dispatch_Raise [OF this] assms show ?thesis
        by (intro raise [of e]) simp_all
    next
      case (Inr b)
      then have rd: "read_or_close (fd, state, rd) (s, c) = (Return (take 4096 b), (s, c))"
        using a by (simp add: read_or_close_READ)
      show ?thesis
      proof (cases "take 4096 b = []")
        case True
        with rd have "read_or_close (fd, state, rd) (s, c) = (Return [], (s, c))" by simp
        from dispatch_empty [OF this] assms have "end_of_stream fd s = (r, s')" "c' = c"
          by (simp_all add: prod_eq_iff)
        then show ?thesis using nh by (rule eos)
      next
        case False
        from dispatch_bytes [OF rd False] assms
        have "r = Return ()" "c' = c" "s' = append_data (map_of (fds s) fd) (take 4096 b) s"
          by simp_all
        with False a show ?thesis by (intro bytes [of "take 4096 b"])
      qed
    qed
  next
    case c
    then have "read_or_close (fd, state, rd) (s, c) = (Return [], (s, c))"
      by (simp add: read_or_close_other)
    from dispatch_empty [OF this] assms have "end_of_stream fd s = (r, s')" "c' = c"
      by (simp_all add: prod_eq_iff)
    then show ?thesis using c(2,3) by (rule eos)
  next
    case b
    show ?thesis
    proof (cases o1)
      case (Raise e)
      with rc have "read_or_close (fd, state, rd) (s, c) = (Raise e, (s1, c1))" by simp
      then have "(s1, c1) = (s, c)"
        by (rule read_or_close_hup_Raise [OF b])
      with rc Raise have "read_or_close (fd, state, rd) (s, c) = (Raise e, (s, c))" by simp
      from dispatch_Raise [OF this] assms show ?thesis
        by (intro raise [of e]) simp_all
    next
      case (Return d)
      with rc have "read_or_close (fd, state, rd) (s, c) = (Return d, (s1, c1))" by simp
      from read_or_close_hup_Return [OF b this]
      obtain p files t k where *: "map_of (fds s) fd = Some p"
        "map_of (processgbprot s) p = Some files" "map_of (processes s) p = Some t"
        "index t fd = Some k" "s1 = s" "c1 = select files k # c" "d = []"
        by blast
      with rc Return have "read_or_close (fd, state, rd) (s, c) = (Return [], (s, select files k # c))"
        by simp
      from dispatch_empty [OF this] assms
      have "end_of_stream fd s = (r, s')" "c' = select files k # c"
        by (simp_all add: prod_eq_iff)
      with b * show ?thesis by (intro hup)
    qed
  qed
qed

lemma end_of_stream_fds:
  "map_of (fds s) fd = Some p \<Longrightarrow> fds (snd (end_of_stream fd s)) = AList.delete fd (fds s)"
  by (simp add: end_of_stream_def Let_def split: option.splits)

lemma end_of_stream_processes:
  "map_of (fds s) fd = Some p \<Longrightarrow> map_of (processes s) p = Some t \<Longrightarrow>
   processes (snd (end_of_stream fd s)) =
     (if length (remaining (s\<lparr>fds := AList.delete fd (fds s)\<rparr>) t) = 1
      then AList.delete p (processes s) else processes s)"
  by (simp add: end_of_stream_def Let_def split: option.splits)

text \<open>
  C2: after the end-of-stream handling has removed a descriptor from \<open>fds\<close>, its process
  has left the tracked set if and only if exactly one of its three descriptors is still
  a key of \<open>fds\<close>. The test of line 111 reads the pid stored under a descriptor as a
  truth value, so the statement is about pids other than 0, which every pid of a
  spawned process is.
\<close>

theorem retired_iff_one_endpoint_remains:
  assumes "map_of (fds s) fd = Some p"
    and "map_of (processes s) p = Some (i, out, err)"
    and "\<forall>x\<in>set [i, out, err]. map_of (fds s) x \<noteq> Some 0"
  shows "map_of (fds (snd (end_of_stream fd s))) fd = None
    \<and> (map_of (processes (snd (end_of_stream fd s))) p = None
        \<longleftrightarrow> length (filter (\<lambda>x. map_of (fds (snd (end_of_stream fd s))) x \<noteq> None) [i, out, err]) = 1)"
proof -
  let ?s1 = "s\<lparr>fds := AList.delete fd (fds s)\<rparr>"
  let ?s' = "snd (end_of_stream fd s)"
  have f: "fds ?s' = fds ?s1"
    using assms(1) by (simp add: end_of_stream_fds)
  have t: "truthy ?s1 x = (map_of (fds ?s1) x \<noteq> None)" if "x \<in> set [i, out, err]" for x
    using assms(3) that by (auto simp add: truthy_def AList.delete_conv' split: option.splits)
  have r: "remaining ?s1 (i, out, err) = filter (\<lambda>x. map_of (fds ?s') x \<noteq> None) [i, out, err]"
    unfolding remaining_def tuple_list.simps f by (rule filter_cong [OF refl]) (rule t)
  have p: "processes ?s' =
      (if length (remaining ?s1 (i, out, err)) = 1 then AList.delete p (processes s) else processes s)"
    using assms(1,2) by (rule end_of_stream_processes)
  have "map_of (fds ?s') fd = None"
    unfolding f by (simp add: AList.delete_conv')
  moreover have "map_of (processes ?s') p = None \<longleftrightarrow> length (remaining ?s1 (i, out, err)) = 1"
    unfolding p using assms(2) by (simp add: AList.delete_conv')
  ultimately show ?thesis
    unfolding r by simp
qed

theorem retired_iff_one_endpoint_remains_witness:
  "map_of (fds (one_process\<lparr>fds := [(5, 100), (8, 100)]\<rparr>)) 8 = Some 100
   \<and> map_of (processes (snd (end_of_stream 8 (one_process\<lparr>fds := [(5, 100), (8, 100)]\<rparr>)))) 100 = None"
  using retired_iff_one_endpoint_remains [of "one_process\<lparr>fds := [(5, 100), (8, 100)]\<rparr>" 8 100 5 6 8]
  by (simp add: one_process_eq end_of_stream_def remaining_def truthy_def)

text \<open>
  C10: a readiness mask that is neither \<open>READ\<close> nor one of the two hang-up flags alone,
  such as \<open>EPOLLIN OR EPOLLHUP\<close>, takes neither branch of lines 104 to 107: nothing is
  read whatever the pipe holds, \<open>d\<close> stays empty, and the event goes through the
  end-of-stream handling, which removes the descriptor from \<open>fds\<close> and runs the retirement
  test; no byte reaches the buffers.
\<close>

theorem other_masks_read_nothing:
  assumes "state \<noteq> READ" "state \<noteq> EPOLLHUP" "state \<noteq> EPOLLRDHUP"
  shows "read_or_close (fd, state, rd) (s, closed) = (Return [], (s, closed))
    \<and> dispatch (fd, state, rd) (s, closed) =
        (fst (end_of_stream fd s), (snd (end_of_stream fd s), closed))
    \<and> data (snd (end_of_stream fd s)) = data s
    \<and> (map_of (fds s) fd \<noteq> None \<longrightarrow> map_of (fds (snd (end_of_stream fd s))) fd = None)"
  using assms
  by (auto simp add: read_or_close_def dispatch_def end_of_stream_def Let_def AList.delete_conv'
      split: prod.splits option.splits)

theorem other_masks_read_nothing_witness:
  "EPOLLIN OR EPOLLHUP \<noteq> READ \<and> EPOLLIN OR EPOLLHUP \<noteq> EPOLLHUP \<and> EPOLLIN OR EPOLLHUP \<noteq> EPOLLRDHUP
   \<and> dispatch (6, EPOLLIN OR EPOLLHUP, Inr ''out'') (one_process, []) =
       (Return (), (one_process\<lparr>fds := [(5, 100), (8, 100)]\<rparr>, []))"
  using other_masks_read_nothing [of "EPOLLIN OR EPOLLHUP" 6 "Inr ''out''" one_process "[]"]
  by (simp add: EPOLLIN_def mask_vals one_process_eq end_of_stream_def remaining_def truthy_def)

subsection \<open>Well-formedness is kept by the end-of-stream handling\<close>

lemma wf_iff:
  "well_formed s \<longleftrightarrow>
     distinct (map fst (processes s)) \<and> distinct (map fst (fds s))
     \<and> (\<forall>p t. map_of (processes s) p = Some t \<longrightarrow> proc_ok s p t)
     \<and> (\<forall>x p. map_of (fds s) x = Some p \<longrightarrow> fd_ok s x p)"
proof -
  have "list_all (\<lambda>(p, t). proc_ok s p t) (processes s)
      \<longleftrightarrow> (\<forall>p t. map_of (processes s) p = Some t \<longrightarrow> proc_ok s p t)"
    if "distinct (map fst (processes s))"
    using that by (auto simp add: list_all_iff)
  moreover have "list_all (\<lambda>(x, p). fd_ok s x p) (fds s)
      \<longleftrightarrow> (\<forall>x p. map_of (fds s) x = Some p \<longrightarrow> fd_ok s x p)"
    if "distinct (map fst (fds s))"
    using that by (auto simp add: list_all_iff)
  ultimately show ?thesis
    unfolding well_formed_def by blast
qed

lemma wf_TaskManager: "well_formed (TaskManager dir)"
  by (simp add: well_formed_def TaskManager_def)

lemma FD_distinct: "FDIN \<noteq> FDOUT" "FDIN \<noteq> FDERR" "FDOUT \<noteq> FDERR"
  by (simp_all add: mask_vals)

lemma wf_proc: "well_formed s \<Longrightarrow> map_of (processes s) p = Some t \<Longrightarrow> proc_ok s p t"
  unfolding wf_iff by blast

lemma wf_fd: "well_formed s \<Longrightarrow> map_of (fds s) x = Some p \<Longrightarrow> fd_ok s x p"
  unfolding wf_iff by blast

lemma watched_owner:
  assumes "well_formed s" "watched s x"
  shows "\<exists>p i out err. map_of (fds s) x = Some p \<and> map_of (processes s) p = Some (i, out, err)
     \<and> (x = out \<or> x = err) \<and> x \<noteq> i \<and> map_of (processgbprot s) p = Some (i, out, err)"
proof -
  from assms(2) obtain p ty where p: "map_of (fds s) x = Some p"
    and ty: "map_of (fdtype s) x = Some ty" "ty = FDOUT \<or> ty = FDERR"
    by (auto simp add: watched_def split: option.splits)
  from wf_fd [OF assms(1) p] ty obtain i out err
    where t: "map_of (processes s) p = Some (i, out, err)" "x = out \<or> x = err"
    by (auto simp add: fd_ok_def split: option.splits)
  from wf_proc [OF assms(1) t(1)] have "i \<noteq> out" "i \<noteq> err"
    "map_of (processgbprot s) p = Some (i, out, err)"
    by (simp_all add: proc_ok_def)
  with p t show ?thesis by auto
qed

lemma input_not_watched:
  assumes "well_formed s" "map_of (processes s) p = Some (i, out, err)"
  shows "\<not> watched s i"
  using wf_proc [OF assms] FD_distinct by (auto simp add: proc_ok_def watched_def)


lemma remaining_after_delete:
  assumes "well_formed s" "map_of (processes s) p = Some (i, out, err)" "map_of (fds s) fd = Some p"
    and "fd = out \<or> fd = err"
  shows "length (remaining (s\<lparr>fds := AList.delete fd (fds s)\<rparr>) (i, out, err)) =
     (if (fd = out \<and> map_of (fds s) err = Some p) \<or> (fd = err \<and> map_of (fds s) out = Some p)
      then 2 else 1)"
proof -
  from wf_proc [OF assms(1,2)] have ok: "p \<noteq> 0" "i \<noteq> out" "i \<noteq> err" "out \<noteq> err"
    "map_of (fds s) i = Some p"
    "map_of (fds s) out = None \<or> map_of (fds s) out = Some p"
    "map_of (fds s) err = None \<or> map_of (fds s) err = Some p"
    by (simp_all add: proc_ok_def)
  let ?s1 = "s\<lparr>fds := AList.delete fd (fds s)\<rparr>"
  have ti: "truthy ?s1 i"
    using ok assms(4) by (auto simp add: truthy_def AList.delete_conv')
  have tf: "\<not> truthy ?s1 fd"
    by (simp add: truthy_def AList.delete_conv')
  have tx: "truthy ?s1 x \<longleftrightarrow> map_of (fds s) x = Some p" if "x \<noteq> fd" "x = out \<or> x = err" for x
    using ok that by (auto simp add: truthy_def AList.delete_conv')
  show ?thesis
  proof (cases "fd = out")
    case True
    then have "err \<noteq> fd" using ok by simp
    with True ti tf tx [of err] show ?thesis
      by (simp add: remaining_def)
  next
    case False
    with assms(4) have e: "fd = err" by simp
    then have "out \<noteq> fd" using ok by simp
    with e ti tf tx [of out] show ?thesis
      by (simp add: remaining_def)
  qed
qed


lemma fd_ok_cong:
  "fdtype s' = fdtype s \<Longrightarrow> map_of (processes s') p = map_of (processes s) p \<Longrightarrow>
   fd_ok s' x p = fd_ok s x p"
  by (simp add: fd_ok_def cong: option.case_cong)

lemma input_not_event:
  assumes "well_formed s" "watched s fd" "map_of (processes s) q = Some (i, out, err)"
  shows "i \<noteq> fd"
  using input_not_watched [OF assms(1,3)] assms(2) by auto

lemma wf_keep:
  assumes "well_formed s" "watched s fd" "map_of (fds s) fd = Some p"
    and "map_of (processes s) p = Some (i, out, err)"
    and "(fd = out \<and> map_of (fds s) err = Some p) \<or> (fd = err \<and> map_of (fds s) out = Some p)"
  shows "well_formed (s\<lparr>fds := AList.delete fd (fds s)\<rparr>)"
proof -
  let ?s1 = "s\<lparr>fds := AList.delete fd (fds s)\<rparr>"
  have ne: "out \<noteq> err"
    using wf_proc [OF assms(1,4)] by (simp add: proc_ok_def)
  have d: "distinct (map fst (processes ?s1))" "distinct (map fst (fds ?s1))"
    using assms(1) by (simp_all add: wf_iff distinct_delete)
  have po: "proc_ok ?s1 q t" if q: "map_of (processes ?s1) q = Some t" for q t
  proof -
    obtain i' o' e' where t: "t = (i', o', e')" by (cases t)
    from q t have q': "map_of (processes s) q = Some (i', o', e')" by simp
    have i': "i' \<noteq> fd" using input_not_event [OF assms(1,2) q'] .
    have ok: "proc_ok s q (i', o', e')" using wf_proc [OF assms(1) q'] .
    show ?thesis
    proof (cases "q = p")
      case True
      with q' assms(4) have "i' = i" "o' = out" "e' = err" by simp_all
      with ok i' assms(5) ne t show ?thesis
        by (auto simp add: proc_ok_def AList.delete_conv')
    next
      case False
      with ok assms(3) have "o' \<noteq> fd \<or> map_of (fds s) o' = None"
        "e' \<noteq> fd \<or> map_of (fds s) e' = None"
        by (auto simp add: proc_ok_def)
      with ok i' assms(3) t show ?thesis
        by (auto simp add: proc_ok_def AList.delete_conv')
    qed
  qed
  have fo: "fd_ok ?s1 x q" if "map_of (fds ?s1) x = Some q" for x q
  proof -
    from that have "map_of (fds s) x = Some q"
      by (simp add: AList.delete_conv' split: if_splits)
    from wf_fd [OF assms(1) this] show ?thesis
      by (simp add: fd_ok_cong [of ?s1 s])
  qed
  show ?thesis
    unfolding wf_iff using d po fo by blast
qed

lemma wf_retire:
  assumes "well_formed s" "watched s fd" "map_of (fds s) fd = Some p"
    and "map_of (processes s) p = Some (i, out, err)"
    and "(fd = out \<and> map_of (fds s) err = None) \<or> (fd = err \<and> map_of (fds s) out = None)"
  shows "well_formed (s\<lparr>fds := AList.delete fd (fds s), processes := AList.delete p (processes s),
               processgbprot := AList.delete p (processgbprot s)\<rparr>)"
proof -
  let ?s2 = "s\<lparr>fds := AList.delete fd (fds s), processes := AList.delete p (processes s),
               processgbprot := AList.delete p (processgbprot s)\<rparr>"
  have d: "distinct (map fst (processes ?s2))" "distinct (map fst (fds ?s2))"
    using assms(1) by (simp_all add: wf_iff distinct_delete)
  have po: "proc_ok ?s2 q t" if q: "map_of (processes ?s2) q = Some t" for q t
  proof -
    obtain i' o' e' where t: "t = (i', o', e')" by (cases t)
    from q t have qp: "q \<noteq> p" and q': "map_of (processes s) q = Some (i', o', e')"
      by (auto simp add: AList.delete_conv' split: if_splits)
    have i': "i' \<noteq> fd" using input_not_event [OF assms(1,2) q'] .
    have ok: "proc_ok s q (i', o', e')" using wf_proc [OF assms(1) q'] .
    with qp assms(3) have "o' \<noteq> fd \<or> map_of (fds s) o' = None"
      "e' \<noteq> fd \<or> map_of (fds s) e' = None"
      by (auto simp add: proc_ok_def)
    with ok i' assms(3) t qp show ?thesis
      by (auto simp add: proc_ok_def AList.delete_conv')
  qed
  have fo: "fd_ok ?s2 x q" if x: "map_of (fds ?s2) x = Some q" for x q
  proof -
    from x have xf: "x \<noteq> fd" and x': "map_of (fds s) x = Some q"
      by (auto simp add: AList.delete_conv' split: if_splits)
    have ok: "fd_ok s x q" using wf_fd [OF assms(1) x'] .
    show ?thesis
    proof (cases "q = p")
      case False
      with ok show ?thesis
        by (simp add: fd_ok_cong [of ?s2 s] AList.delete_conv')
    next
      case True
      with x' xf assms(5) have "x \<noteq> out" "x \<noteq> err" by auto
      with ok True assms(4) show ?thesis
        by (auto simp add: fd_ok_def AList.delete_conv' split: option.splits)
    qed
  qed
  show ?thesis
    unfolding wf_iff using d po fo by blast
qed


lemma end_of_stream_watched:
  assumes "well_formed s" "watched s fd"
  obtains
    (keep) p i out err where "map_of (fds s) fd = Some p"
      "map_of (processes s) p = Some (i, out, err)"
      "(fd = out \<and> map_of (fds s) err = Some p) \<or> (fd = err \<and> map_of (fds s) out = Some p)"
      "end_of_stream fd s = (Return (), s\<lparr>fds := AList.delete fd (fds s)\<rparr>)"
  | (retire) p i out err where "map_of (fds s) fd = Some p"
      "map_of (processes s) p = Some (i, out, err)"
      "(fd = out \<and> map_of (fds s) err = None) \<or> (fd = err \<and> map_of (fds s) out = None)"
      "end_of_stream fd s =
         (Return (), s\<lparr>fds := AList.delete fd (fds s), processes := AList.delete p (processes s),
                        processgbprot := AList.delete p (processgbprot s)\<rparr>)"
proof -
  from watched_owner [OF assms] obtain p i out err where
    o: "map_of (fds s) fd = Some p" "map_of (processes s) p = Some (i, out, err)"
       "fd = out \<or> fd = err" "map_of (processgbprot s) p = Some (i, out, err)"
    by blast
  from wf_proc [OF assms(1) o(2)] have ok:
    "map_of (fds s) out = None \<or> map_of (fds s) out = Some p"
    "map_of (fds s) err = None \<or> map_of (fds s) err = Some p"
    by (simp_all add: proc_ok_def)
  note len = remaining_after_delete [OF assms(1) o(2) o(1) o(3)]
  show ?thesis
  proof (cases "(fd = out \<and> map_of (fds s) err = Some p) \<or> (fd = err \<and> map_of (fds s) out = Some p)")
    case True
    with len have "length (remaining (s\<lparr>fds := AList.delete fd (fds s)\<rparr>) (i, out, err)) = 2"
      by simp
    with o have "end_of_stream fd s = (Return (), s\<lparr>fds := AList.delete fd (fds s)\<rparr>)"
      by (simp add: end_of_stream_def Let_def)
    with o True show ?thesis by (intro keep)
  next
    case False
    with len have "length (remaining (s\<lparr>fds := AList.delete fd (fds s)\<rparr>) (i, out, err)) = 1"
      by simp
    with o have "end_of_stream fd s =
         (Return (), s\<lparr>fds := AList.delete fd (fds s), processes := AList.delete p (processes s),
                        processgbprot := AList.delete p (processgbprot s)\<rparr>)"
      by (simp add: end_of_stream_def Let_def)
    moreover from False o(3) ok
    have "(fd = out \<and> map_of (fds s) err = None) \<or> (fd = err \<and> map_of (fds s) out = None)"
      by auto
    ultimately show ?thesis using o by (intro retire)
  qed
qed

lemma wf_end_of_stream:
  assumes "well_formed s" "watched s fd"
  shows "well_formed (snd (end_of_stream fd s)) \<and> fst (end_of_stream fd s) = Return ()"
  using assms
proof (cases rule: end_of_stream_watched)
  case (keep p i out err)
  with wf_keep [OF assms keep(1,2,3)] show ?thesis by simp
next
  case (retire p i out err)
  with wf_retire [OF assms retire(1,2,3)] show ?thesis by simp
qed

subsection \<open>Events keep well-formedness\<close>

lemma end_of_stream_unregistered:
  "map_of (fds s) fd = None \<Longrightarrow> end_of_stream fd s = (Raise KeyError, s)"
  by (simp add: end_of_stream_def)

lemma proc_ok_cong:
  "fds s' = fds s \<Longrightarrow> fdtype s' = fdtype s \<Longrightarrow> processgbprot s' = processgbprot s \<Longrightarrow>
   proc_ok s' p t = proc_ok s p t"
  by (simp add: proc_ok_def)

lemma select_index: "index t x = Some k \<Longrightarrow> select t k = x"
proof (cases t)
  case (fields a b c)
  then show "index t x = Some k \<Longrightarrow> select t k = x"
    by (simp split: if_splits)
qed


lemma wf_cong:
  assumes "processes s' = processes s" "fds s' = fds s" "fdtype s' = fdtype s"
    "processgbprot s' = processgbprot s"
  shows "well_formed s' = well_formed s"
proof -
  have "proc_ok s' p t = proc_ok s p t" for p t
    using assms(2,3,4) by (rule proc_ok_cong)
  then have p: "proc_ok s' = proc_ok s" by (intro ext)
  have "fd_ok s' x q = fd_ok s x q" for x q
    by (rule fd_ok_cong [OF assms(3)]) (simp add: assms(1))
  then have f: "fd_ok s' = fd_ok s" by (intro ext)
  show ?thesis
    unfolding well_formed_def p f assms(1,2) ..
qed

lemma wf_append_data: "well_formed (append_data k d s) = well_formed s"
  by (rule wf_cong) (simp_all add: append_data_def)

text \<open>An event the poller can deliver: its descriptor was registered, and is still a key
  of \<open>fds\<close> unless an earlier event of the same batch removed it.\<close>

lemma dispatch_wf:
  assumes "well_formed s" "map_of (fds s) fd = None \<or> watched s fd"
    and "dispatch (fd, state, rd) (s, c) = (r, (s', c'))"
  shows "well_formed s'"
  using assms(3)
proof (cases rule: dispatch_cases)
  case (raise e)
  with assms(1) show ?thesis by simp
next
  case (bytes d)
  with assms(1) show ?thesis by (simp add: wf_append_data)
next
  case eos
  show ?thesis
  proof (cases "map_of (fds s) fd")
    case None
    with eos(1) assms(1) show ?thesis by (simp add: end_of_stream_unregistered)
  next
    case (Some p)
    with assms(2) have "watched s fd" by simp
    from wf_end_of_stream [OF assms(1) this] eos(1) show ?thesis by simp
  qed
next
  case (hup p files t k)
  with assms(2) have "watched s fd" by simp
  from wf_end_of_stream [OF assms(1) this] hup(6) show ?thesis by simp
qed


lemma end_of_stream_frame:
  assumes "end_of_stream fd s = (r, s')"
  shows "fdtype s' = fdtype s \<and> cwd s' = cwd s \<and> data s' = data s
    \<and> (fds s' = fds s \<or> fds s' = AList.delete fd (fds s))
    \<and> (processes s' = processes s \<or> (\<exists>p. processes s' = AList.delete p (processes s)))"
  using assms by (cases rule: end_of_stream_cases) auto

lemma dispatch_frame:
  assumes "dispatch (fd, state, rd) (s, c) = (r, (s', c'))"
  shows "fdtype s' = fdtype s \<and> cwd s' = cwd s
    \<and> (fds s' = fds s \<or> fds s' = AList.delete fd (fds s))
    \<and> (processes s' = processes s \<or> (\<exists>p. processes s' = AList.delete p (processes s)))"
  using assms
proof (cases rule: dispatch_cases)
  case (raise e)
  then show ?thesis by simp
next
  case (bytes d)
  then show ?thesis by (simp add: append_data_def)
next
  case eos
  from end_of_stream_frame [OF eos(1)] show ?thesis by blast
next
  case (hup p files t k)
  from end_of_stream_frame [OF hup(6)] show ?thesis by blast
qed

lemma dispatch_fds:
  assumes "dispatch (fd, state, rd) (s, c) = (r, (s', c'))"
  shows "map_of (fds s') x = map_of (fds s) x \<or> (x = fd \<and> map_of (fds s') x = None)"
proof -
  from dispatch_frame [OF assms]
  consider "fds s' = fds s" | "fds s' = AList.delete fd (fds s)" by blast
  then show ?thesis
  proof cases
    case 1
    then show ?thesis by simp
  next
    case 2
    then show ?thesis by (cases "x = fd") (simp_all add: AList.delete_conv')
  qed
qed

lemma dispatch_processes:
  assumes "dispatch (fd, state, rd) (s, c) = (r, (s', c'))"
    and "map_of (processes s') q = Some t"
  shows "map_of (processes s) q = Some t"
  using dispatch_frame [OF assms(1)] assms(2)
  by (auto simp add: AList.delete_conv' split: if_splits)

lemma dispatch_adm:
  assumes "dispatch (fd, state, rd) (s, c) = (r, (s', c'))"
    and "map_of (fds s) x = None \<or> watched s x"
  shows "map_of (fds s') x = None \<or> watched s' x"
proof -
  have t: "fdtype s' = fdtype s" using dispatch_frame [OF assms(1)] by simp
  from dispatch_fds [OF assms(1), of x]
  consider "map_of (fds s') x = map_of (fds s) x" | "map_of (fds s') x = None" by auto
  then show ?thesis
  proof cases
    case 1
    with assms(2) t show ?thesis by (simp add: watched_def cong: option.case_cong)
  next
    case 2
    then show ?thesis by simp
  qed
qed

lemma dispatch_closed:
  assumes "well_formed s" "dispatch (fd, state, rd) (s, c) = (r, (s', c'))"
  shows "c' = c \<or> (c' = fd # c \<and> map_of (fds s) fd \<noteq> None)"
  using assms(2)
proof (cases rule: dispatch_cases)
  case (hup p files t k)
  from wf_proc [OF assms(1) hup(4)] hup(3) have "files = t"
    by (simp add: proc_ok_def split: prod.splits)
  with hup(5,7) select_index [of t fd k] hup(2) show ?thesis by simp
qed simp_all

subsection \<open>Invariants of the loop\<close>

lemma watch_list_set:
  "watch_list ft xs = Return ws \<Longrightarrow> x \<in> set ws \<Longrightarrow>
   x \<in> set xs \<and> (\<exists>ty. map_of ft x = Some ty \<and> (ty = FDOUT \<or> ty = FDERR))"
proof (induction xs arbitrary: ws)
  case Nil
  then show ?case by simp
next
  case (Cons y ys)
  from Cons.prems(1) obtain ty ws' where y: "map_of ft y = Some ty"
    and r: "watch_list ft ys = Return ws'"
    and ws: "ws = (if ty = FDOUT \<or> ty = FDERR then y # ws' else ws')"
    by (auto split: option.splits outcome.splits)
  show ?case
  proof (cases "x \<in> set ws'")
    case True
    from Cons.IH [OF r True] show ?thesis by simp
  next
    case False
    with Cons.prems(2) ws have "x = y" "ty = FDOUT \<or> ty = FDERR"
      by (auto split: if_splits)
    with y show ?thesis by simp
  qed
qed

lemma watch_watched:
  assumes "watch s = Return ws" "x \<in> set ws"
  shows "watched s x"
proof -
  from watch_list_set [OF assms [unfolded watch_def]]
  obtain ty where "x \<in> set (map fst (fds s))" "map_of (fdtype s) x = Some ty"
    "ty = FDOUT \<or> ty = FDERR" by blast
  moreover from this(1) obtain p where "map_of (fds s) x = Some p"
    by (metis domIff dom_map_of_conv_image_fst not_Some_eq set_map)
  ultimately show ?thesis by (simp add: watched_def)
qed

lemma dispatch_all_invariant:
  assumes step: "\<And>fd state rd s c r s' c'. P (s, c) \<Longrightarrow> map_of (fds s) fd = None \<or> watched s fd \<Longrightarrow>
      dispatch (fd, state, rd) (s, c) = (r, (s', c')) \<Longrightarrow> P (s', c')"
    and "P st"
    and "\<forall>ev\<in>set evs. map_of (fds (fst st)) (fst ev) = None \<or> watched (fst st) (fst ev)"
  shows "P (snd (dispatch_all evs st))"
  using assms(2,3)
proof (induction evs arbitrary: st)
  case Nil
  then show ?case by simp
next
  case (Cons ev evs)
  obtain fd state rd where ev: "ev = (fd, state, rd)" by (cases ev)
  obtain s c where st: "st = (s, c)" by (cases st)
  obtain r s' c' where d: "dispatch (fd, state, rd) (s, c) = (r, (s', c'))"
    by (metis prod.exhaust)
  from Cons.prems ev st have a: "map_of (fds s) fd = None \<or> watched s fd" and P: "P (s, c)"
    by simp_all
  have P': "P (s', c')" using step [OF P a d] .
  show ?case
  proof (cases r)
    case (Raise e)
    with d ev st P' show ?thesis by simp
  next
    case (Return u)
    have "\<forall>ev\<in>set evs. map_of (fds s') (fst ev) = None \<or> watched s' (fst ev)"
      using Cons.prems(2) st dispatch_adm [OF d] by auto
    from Cons.IH [of "(s', c')"] P' this have "P (snd (dispatch_all evs (s', c')))" by simp
    with d ev st Return show ?thesis by simp
  qed
qed

lemma iteration_invariant:
  assumes step: "\<And>fd state rd s c r s' c'. P (s, c) \<Longrightarrow> map_of (fds s) fd = None \<or> watched s fd \<Longrightarrow>
      dispatch (fd, state, rd) (s, c) = (r, (s', c')) \<Longrightarrow> P (s', c')"
    and "P st"
  shows "P (snd (iteration po st))"
proof (cases po)
  case (CreateFails e)
  with assms(2) show ?thesis by (simp add: iteration_def)
next
  case (PollFails e)
  with assms(2) show ?thesis by (simp add: iteration_def split: outcome.splits)
next
  case (Ready ready)
  show ?thesis
  proof (cases "watch (fst st)")
    case (Raise e)
    with Ready assms(2) show ?thesis by (simp add: iteration_def)
  next
    case (Return registered)
    have "\<forall>ev\<in>set (active registered ready). map_of (fds (fst st)) (fst ev) = None \<or> watched (fst st) (fst ev)"
      using watch_watched [OF Return] by (auto simp add: active_def)
    from dispatch_all_invariant [of P, OF step assms(2) this] Ready Return
    show ?thesis by (simp add: iteration_def)
  qed
qed

lemma wait_invariant:
  assumes step: "\<And>fd state rd s c r s' c'. P (s, c) \<Longrightarrow> map_of (fds s) fd = None \<or> watched s fd \<Longrightarrow>
      dispatch (fd, state, rd) (s, c) = (r, (s', c')) \<Longrightarrow> P (s', c')"
    and "P st"
  shows "P (snd (wait sched st))"
  using assms(2)
proof (induction sched arbitrary: st)
  case Nil
  then show ?case by simp
next
  case (Cons po rest)
  have i: "P (snd (iteration po st))"
    using iteration_invariant [of P, OF step Cons.prems] .
  obtain r st1 where it: "iteration po st = (r, st1)" by (metis prod.exhaust)
  show ?case
  proof (cases "processes (fst st) = []")
    case True
    with Cons.prems show ?thesis by simp
  next
    case False
    show ?thesis
    proof (cases r)
      case (Raise e)
      with False it i show ?thesis by simp
    next
      case (Return u)
      from Cons.IH [of st1] i it have "P (snd (wait rest st1))" by simp
      with False it Return show ?thesis by simp
    qed
  qed
qed

subsection \<open>The loop returns when every process is retired\<close>

lemma wait_Returned: "fst (wait sched st) = Returned \<Longrightarrow> processes (fst (snd (wait sched st))) = []"
proof (induction sched arbitrary: st)
  case Nil
  then show ?case by (simp split: if_splits)
next
  case (Cons po rest)
  obtain r st1 where it: "iteration po st = (r, st1)" by (metis prod.exhaust)
  show ?case
  proof (cases "processes (fst st) = []")
    case True
    then show ?thesis by simp
  next
    case False
    show ?thesis
    proof (cases r)
      case (Raise e)
      with False it Cons.prems show ?thesis by simp
    next
      case (Return u)
      with False it Cons.prems Cons.IH [of st1] show ?thesis by simp
    qed
  qed
qed

lemma wait_Blocked: "fst (wait sched st) = Blocked \<Longrightarrow> processes (fst (snd (wait sched st))) \<noteq> []"
proof (induction sched arbitrary: st)
  case Nil
  then show ?case by (simp split: if_splits)
next
  case (Cons po rest)
  obtain r st1 where it: "iteration po st = (r, st1)" by (metis prod.exhaust)
  show ?case
  proof (cases "processes (fst st) = []")
    case True
    with Cons.prems show ?thesis by simp
  next
    case False
    show ?thesis
    proof (cases r)
      case (Raise e)
      with False it Cons.prems show ?thesis by simp
    next
      case (Return u)
      with False it Cons.prems Cons.IH [of st1] show ?thesis by simp
    qed
  qed
qed

lemma dispatch_retires:
  assumes "well_formed s" "map_of (fds s) fd = None \<or> watched s fd"
    and "dispatch (fd, state, rd) (s, c) = (r, (s', c'))"
    and "map_of (processes s) p = Some (i, out, err)"
    and "map_of (processes s') p = None"
  shows "map_of (fds s') out = None \<and> map_of (fds s') err = None"
proof -
  have eos: "map_of (fds s') out = None \<and> map_of (fds s') err = None"
    if e: "end_of_stream fd s = (r, s')"
  proof (cases "map_of (fds s) fd")
    case None
    with e assms(4,5) show ?thesis by (simp add: end_of_stream_unregistered)
  next
    case (Some q)
    with assms(2) have w: "watched s fd" by simp
    from assms(1) w show ?thesis
    proof (cases rule: end_of_stream_watched)
      case (keep p' i' out' err')
      with e have "processes s' = processes s" by auto
      with assms(4,5) show ?thesis by simp
    next
      case (retire p' i' out' err')
      with e have s': "s' = s\<lparr>fds := AList.delete fd (fds s), processes := AList.delete p' (processes s),
                        processgbprot := AList.delete p' (processgbprot s)\<rparr>" by simp
      with assms(4,5) have "p' = p"
        by (auto simp add: AList.delete_conv' split: if_splits)
      with retire(2) assms(4) have "i' = i" "out' = out" "err' = err" by simp_all
      with retire(3) s' show ?thesis
        by (auto simp add: AList.delete_conv')
    qed
  qed
  from assms(3) show ?thesis
  proof (cases rule: dispatch_cases)
    case (raise e)
    with assms(4,5) show ?thesis by simp
  next
    case (bytes d)
    with assms(4,5) show ?thesis by (simp add: append_data_def)
  next
    case eos
    then show ?thesis using \<open>end_of_stream fd s = (r, s') \<Longrightarrow> _\<close> by blast
  next
    case (hup p files t k)
    then show ?thesis using \<open>end_of_stream fd s = (r, s') \<Longrightarrow> _\<close> by blast
  qed
qed


lemma wait_progress:
  fixes s :: manager and c :: "fd list" and sched :: "poll_outcome list"
  assumes "well_formed s"
  defines "s' \<equiv> fst (snd (wait sched (s, c)))"
  shows "well_formed s'"
    and "map_of (processes s) p = Some (i, out, err) \<Longrightarrow>
         map_of (processes s') p = Some (i, out, err)
         \<or> (map_of (fds s') out = None \<and> map_of (fds s') err = None)"
    and "map_of (processes s') q = Some t \<Longrightarrow> map_of (processes s) q = Some t"
proof -
  define P :: "state \<Rightarrow> bool" where "P = (\<lambda>st. well_formed (fst st)
     \<and> (\<forall>p i out err. map_of (processes s) p = Some (i, out, err) \<longrightarrow>
           map_of (processes (fst st)) p = Some (i, out, err)
           \<or> (map_of (fds (fst st)) out = None \<and> map_of (fds (fst st)) err = None))
     \<and> (\<forall>q t. map_of (processes (fst st)) q = Some t \<longrightarrow> map_of (processes s) q = Some t))"
  have step: "P (s2, c2)"
    if P: "P (s1, c1)" and a: "map_of (fds s1) fd = None \<or> watched s1 fd"
      and d: "dispatch (fd, state, rd) (s1, c1) = (r, (s2, c2))"
    for fd state rd s1 c1 r s2 c2
  proof -
    from P have w: "well_formed s1" by (simp add: P_def)
    have 1: "well_formed s2" using dispatch_wf [OF w a d] .
    have 2: "map_of (processes s2) p = Some (i, out, err)
        \<or> (map_of (fds s2) out = None \<and> map_of (fds s2) err = None)"
      if p: "map_of (processes s) p = Some (i, out, err)" for p i out err
    proof -
      from P have "\<forall>p i out err. map_of (processes s) p = Some (i, out, err) \<longrightarrow>
           map_of (processes s1) p = Some (i, out, err)
           \<or> (map_of (fds s1) out = None \<and> map_of (fds s1) err = None)"
        by (simp add: P_def)
      from this [rule_format, OF p]
      consider (tracked) "map_of (processes s1) p = Some (i, out, err)"
        | (gone) "map_of (fds s1) out = None" "map_of (fds s1) err = None"
        by auto
      then show ?thesis
      proof cases
        case tracked
        show ?thesis
        proof (cases "map_of (processes s2) p")
          case None
          from dispatch_retires [OF w a d tracked None] show ?thesis by simp
        next
          case (Some t)
          from dispatch_processes [OF d Some] tracked show ?thesis using Some by simp
        qed
      next
        case gone
        with dispatch_fds [OF d, of out] dispatch_fds [OF d, of err] show ?thesis by auto
      qed
    qed
    have 3: "map_of (processes s) q = Some t" if "map_of (processes s2) q = Some t" for q t
    proof -
      from P have "\<forall>q t. map_of (processes s1) q = Some t \<longrightarrow> map_of (processes s) q = Some t"
        unfolding P_def fst_conv by (elim conjE)
      with dispatch_processes [OF d that] show ?thesis by (elim allE impE)
    qed
    from 1 2 3 show ?thesis unfolding P_def fst_conv by (intro conjI allI impI)
  qed
  have "P (s, c)" using assms(1) by (simp add: P_def)
  from wait_invariant [where P = P and sched = sched, OF step this]
  have fin: "P (snd (wait sched (s, c)))" .
  from fin show "well_formed s'" by (simp add: P_def s'_def)
  from fin show "map_of (processes s) p = Some (i, out, err) \<Longrightarrow>
         map_of (processes s') p = Some (i, out, err)
         \<or> (map_of (fds s') out = None \<and> map_of (fds s') err = None)"
    unfolding P_def s'_def by blast
  from fin have "\<forall>q t. map_of (processes s') q = Some t \<longrightarrow> map_of (processes s) q = Some t"
    unfolding P_def s'_def by (elim conjE)
  then show "map_of (processes s') q = Some t \<Longrightarrow> map_of (processes s) q = Some t"
    by (elim allE impE)
qed


lemma well_formed_one_process: "well_formed one_process"
  by (simp add: one_process_eq well_formed_def proc_ok_def fd_ok_def mask_vals)

lemma wait_example_returns:
  "wait [Ready [(6, EPOLLHUP, Inr []), (8, EPOLLHUP, Inr [])]] (one_process, []) =
     (Returned, (\<lparr>cwd = ''.'', processes = [], processgbprot = [], fds = [(5, 100)],
        fdtype = [(5, 1), (6, 4), (8, 8216)], data = []\<rparr>, [8, 6]))"
  by (simp add: one_process_eq iteration_def watch_def active_def dispatch_def read_or_close_def
      end_of_stream_def remaining_def truthy_def mask_vals)

lemma wait_example_blocked:
  "wait [Ready [(6, EPOLLHUP, Inr [])]] (one_process, []) =
     (Blocked, (\<lparr>cwd = ''.'', processes = [(100, 5, 6, 8)], processgbprot = [(100, 5, 6, 8)],
        fds = [(5, 100), (8, 100)], fdtype = [(5, 1), (6, 4), (8, 8216)], data = []\<rparr>, [6]))"
  by (simp add: one_process_eq iteration_def watch_def active_def dispatch_def read_or_close_def
      end_of_stream_def remaining_def truthy_def mask_vals)

text \<open>
  C1: \<^verbatim>\<open>wait\<close> returns only with an empty tracked set, from any manager. From a
  well-formed manager, which is what \<^verbatim>\<open>__init__\<close> and \<^verbatim>\<open>execute\<close> build, this is
  exactly the moment every launched process has lost both its output and its error
  descriptor from \<open>fds\<close>: when \<^verbatim>\<open>wait\<close> has returned, no process tracked at the
  start has either descriptor registered; and while the loop is still running at the end
  of the schedule, some process tracked at the start has one of the two registered.
\<close>

theorem wait_returns_exactly_when_all_retired:
  "(fst (wait sched (s, c)) = Returned \<longrightarrow> processes (fst (snd (wait sched (s, c)))) = [])
   \<and> (well_formed s \<longrightarrow>
       (fst (wait sched (s, c)) = Returned \<longrightarrow>
          (\<forall>p i out err. map_of (processes s) p = Some (i, out, err) \<longrightarrow>
             map_of (fds (fst (snd (wait sched (s, c))))) out = None
             \<and> map_of (fds (fst (snd (wait sched (s, c))))) err = None))
     \<and> (fst (wait sched (s, c)) = Blocked \<longrightarrow>
          (\<exists>p i out err. map_of (processes s) p = Some (i, out, err)
             \<and> (map_of (fds (fst (snd (wait sched (s, c))))) out = Some p
                \<or> map_of (fds (fst (snd (wait sched (s, c))))) err = Some p))))"
proof -
  let ?s' = "fst (snd (wait sched (s, c)))"
  have A: "processes ?s' = []" if "fst (wait sched (s, c)) = Returned"
    using that by (rule wait_Returned)
  have B: "map_of (fds ?s') out = None \<and> map_of (fds ?s') err = None"
    if w: "well_formed s" and r: "fst (wait sched (s, c)) = Returned"
      and p: "map_of (processes s) p = Some (i, out, err)" for p i out err
  proof -
    from A [OF r] have "map_of (processes ?s') p = None" by simp
    with wait_progress(2) [OF w p, of sched c] show ?thesis by simp
  qed
  have C: "\<exists>p i out err. map_of (processes s) p = Some (i, out, err)
      \<and> (map_of (fds ?s') out = Some p \<or> map_of (fds ?s') err = Some p)"
    if w: "well_formed s" and b: "fst (wait sched (s, c)) = Blocked"
  proof -
    from wait_Blocked [OF b] obtain q i out err rest where "processes ?s' = (q, i, out, err) # rest"
      by (cases "processes ?s'") auto
    then have q: "map_of (processes ?s') q = Some (i, out, err)" by simp
    from wf_proc [OF wait_progress(1) [OF w, of sched c] q]
    have "map_of (fds ?s') out = Some q \<or> map_of (fds ?s') err = Some q"
      by (simp add: proc_ok_def)
    with wait_progress(3) [OF w q] show ?thesis by blast
  qed
  from A B C show ?thesis by blast
qed

theorem wait_returns_exactly_when_all_retired_witness:
  "well_formed one_process
   \<and> fst (wait [Ready [(6, EPOLLHUP, Inr []), (8, EPOLLHUP, Inr [])]] (one_process, [])) = Returned
   \<and> map_of (processes one_process) 100 = Some (5, 6, 8)
   \<and> processes (fst (snd (wait [Ready [(6, EPOLLHUP, Inr []), (8, EPOLLHUP, Inr [])]] (one_process, [])))) = []
   \<and> map_of (fds (fst (snd (wait [Ready [(6, EPOLLHUP, Inr []), (8, EPOLLHUP, Inr [])]] (one_process, []))))) 6 = None
   \<and> map_of (fds (fst (snd (wait [Ready [(6, EPOLLHUP, Inr []), (8, EPOLLHUP, Inr [])]] (one_process, []))))) 8 = None
   \<and> fst (wait [Ready [(6, EPOLLHUP, Inr [])]] (one_process, [])) = Blocked
   \<and> map_of (fds (fst (snd (wait [Ready [(6, EPOLLHUP, Inr [])]] (one_process, []))))) 8 = Some 100"
  using wait_returns_exactly_when_all_retired
      [of "[Ready [(6, EPOLLHUP, Inr []), (8, EPOLLHUP, Inr [])]]" one_process "[]"]
    wait_returns_exactly_when_all_retired [of "[Ready [(6, EPOLLHUP, Inr [])]]" one_process "[]"]
    well_formed_one_process
  unfolding wait_example_returns wait_example_blocked
  by (simp add: one_process_eq)

subsection \<open>A zero-length read, a hang-up, and the input descriptor\<close>

lemma dispatch_zero_read:
  "dispatch (fd, READ, Inr []) (s, c) = (fst (end_of_stream fd s), (snd (end_of_stream fd s), c))"
proof -
  have "read_or_close (fd, READ, Inr []) (s, c) = (Return [], (s, c))"
    by (simp add: read_or_close_READ)
  from dispatch_empty [OF this] show ?thesis by simp
qed

lemma dispatch_hang_up:
  assumes "well_formed s" "watched s fd" "state = EPOLLHUP \<or> state = EPOLLRDHUP"
  shows "dispatch (fd, state, rd) (s, c) =
     (fst (end_of_stream fd s), (snd (end_of_stream fd s), fd # c))"
proof -
  from watched_owner [OF assms(1,2)] obtain p i out err where
    o: "map_of (fds s) fd = Some p" "map_of (processes s) p = Some (i, out, err)"
       "fd = out \<or> fd = err" "fd \<noteq> i" "map_of (processgbprot s) p = Some (i, out, err)"
    by blast
  from o(3,4) have "index (i, out, err) fd = Some 1 \<or> index (i, out, err) fd = Some 2"
    by (cases "out = fd") simp_all
  then obtain k where k: "index (i, out, err) fd = Some k" by blast
  have "read_or_close (fd, state, rd) (s, c) = (Return [], (s, select (i, out, err) k # c))"
    using o k by (simp add: read_or_close_hup [OF assms(3)])
  with select_index [OF k] have "read_or_close (fd, state, rd) (s, c) = (Return [], (s, fd # c))"
    by simp
  from dispatch_empty [OF this] show ?thesis by simp
qed

text \<open>
  C6: for a descriptor the poller watches, in a well-formed manager, a read of zero bytes
  and a hang-up leave the same manager: the descriptor is removed from \<open>fds\<close>, the same
  retirement decision is taken, and neither raises. They differ outside the manager: the
  hang-up branch also closes the file object of the descriptor (line 107).
\<close>

theorem zero_read_is_handled_like_hang_up:
  assumes "well_formed s" "watched s fd" "state = EPOLLHUP \<or> state = EPOLLRDHUP"
  shows "fst (dispatch (fd, READ, Inr []) (s, c)) = Return ()
    \<and> fst (dispatch (fd, state, rd) (s, c)) = Return ()
    \<and> fst (snd (dispatch (fd, READ, Inr []) (s, c))) = fst (snd (dispatch (fd, state, rd) (s, c)))
    \<and> fst (snd (dispatch (fd, state, rd) (s, c))) = snd (end_of_stream fd s)
    \<and> map_of (fds (snd (end_of_stream fd s))) fd = None
    \<and> snd (snd (dispatch (fd, READ, Inr []) (s, c))) = c
    \<and> snd (snd (dispatch (fd, state, rd) (s, c))) = fd # c"
proof -
  from assms(2) obtain p where "map_of (fds s) fd = Some p"
    by (auto simp add: watched_def split: option.splits)
  then have "map_of (fds (snd (end_of_stream fd s))) fd = None"
    by (simp add: end_of_stream_fds AList.delete_conv')
  with wf_end_of_stream [OF assms(1,2)] show ?thesis
    by (simp add: dispatch_zero_read dispatch_hang_up [OF assms])
qed

theorem zero_read_is_handled_like_hang_up_witness:
  "well_formed one_process \<and> watched one_process 6 \<and> (EPOLLHUP = EPOLLHUP \<or> EPOLLHUP = EPOLLRDHUP)
   \<and> dispatch (6, READ, Inr []) (one_process, []) =
       (Return (), (one_process\<lparr>fds := [(5, 100), (8, 100)]\<rparr>, []))
   \<and> dispatch (6, EPOLLHUP, Inr ''x'') (one_process, []) =
       (Return (), (one_process\<lparr>fds := [(5, 100), (8, 100)]\<rparr>, [6]))"
proof -
  have w: "well_formed one_process" by (rule well_formed_one_process)
  have x: "watched one_process 6" by (simp add: one_process_eq watched_def mask_vals)
  have h: "EPOLLHUP = EPOLLHUP \<or> EPOLLHUP = EPOLLRDHUP" by simp
  have e: "end_of_stream 6 one_process = (Return (), one_process\<lparr>fds := [(5, 100), (8, 100)]\<rparr>)"
    by (simp add: one_process_eq end_of_stream_def remaining_def truthy_def)
  from zero_read_is_handled_like_hang_up [OF w x h, where c = "[]" and rd = "Inr ''x''"] w x e
  show ?thesis
    by (simp add: prod_eq_iff)
qed


lemma register_process_maps:
  "map_of (processes (register_process q s)) r =
     (if r = ppid q then Some (stdin q, stdout q, stderr q) else map_of (processes s) r)"
  "map_of (processgbprot (register_process q s)) r =
     (if r = ppid q then Some (stdin q, stdout q, stderr q) else map_of (processgbprot s) r)"
  "map_of (fds (register_process q s)) x =
     (if x = stderr q \<or> x = stdout q \<or> x = stdin q then Some (ppid q) else map_of (fds s) x)"
  "map_of (fdtype (register_process q s)) x =
     (if x = stderr q then Some FDERR else if x = stdout q then Some FDOUT
      else if x = stdin q then Some FDIN else map_of (fdtype s) x)"
  by (simp_all add: register_process_def AList.update_conv')

lemma fresh_iff:
  assumes "distinct (map fst (processes s))"
  shows "fresh q s \<longleftrightarrow>
     ppid q \<noteq> 0 \<and> map_of (processes s) (ppid q) = None
     \<and> stdin q \<noteq> stdout q \<and> stdin q \<noteq> stderr q \<and> stdout q \<noteq> stderr q
     \<and> (\<forall>r i out err. map_of (processes s) r = Some (i, out, err) \<longrightarrow>
           stdin q \<notin> {i, out, err} \<and> stdout q \<notin> {i, out, err} \<and> stderr q \<notin> {i, out, err})"
proof -
  have "list_all (\<lambda>(r, t). stdin q \<notin> set (tuple_list t) \<and> stdout q \<notin> set (tuple_list t)
                        \<and> stderr q \<notin> set (tuple_list t)) (processes s)
    \<longleftrightarrow> (\<forall>r i out err. map_of (processes s) r = Some (i, out, err) \<longrightarrow>
           stdin q \<notin> {i, out, err} \<and> stdout q \<notin> {i, out, err} \<and> stderr q \<notin> {i, out, err})"
    using assms by (auto simp add: list_all_iff)
  then show ?thesis by (simp add: fresh_def)
qed


lemma proc_ok_iff:
  "proc_ok s p (i, out, err) \<longleftrightarrow>
     p \<noteq> 0 \<and> i \<noteq> out \<and> i \<noteq> err \<and> out \<noteq> err
     \<and> map_of (fds s) i = Some p \<and> map_of (fdtype s) i = Some FDIN
     \<and> (map_of (fds s) out = None \<or> map_of (fds s) out = Some p)
     \<and> (map_of (fds s) err = None \<or> map_of (fds s) err = Some p)
     \<and> (map_of (fds s) out = Some p \<or> map_of (fds s) err = Some p)
     \<and> map_of (processgbprot s) p = Some (i, out, err)"
  by (simp add: proc_ok_def)

lemma fd_ok_iff:
  "fd_ok s x p \<longleftrightarrow>
     (\<exists>ty. map_of (fdtype s) x = Some ty
        \<and> (ty = FDOUT \<or> ty = FDERR \<longrightarrow>
             (\<exists>i out err. map_of (processes s) p = Some (i, out, err) \<and> (x = out \<or> x = err))))"
  by (auto simp add: fd_ok_def split: option.splits)

lemma well_formed_register_process:
  assumes "well_formed s" "fresh q s"
  shows "well_formed (register_process q s)"
proof -
  let ?s' = "register_process q s"
  from assms(1) have ds: "distinct (map fst (processes s))" "distinct (map fst (fds s))"
    by (simp_all add: wf_iff)
  from assms(2) have f: "ppid q \<noteq> 0" "map_of (processes s) (ppid q) = None"
    "stdin q \<noteq> stdout q" "stdin q \<noteq> stderr q" "stdout q \<noteq> stderr q"
    and fr: "\<And>r i out err. map_of (processes s) r = Some (i, out, err) \<Longrightarrow>
           stdin q \<notin> {i, out, err} \<and> stdout q \<notin> {i, out, err} \<and> stderr q \<notin> {i, out, err}"
    unfolding fresh_iff [OF ds(1)] by blast+
  have d: "distinct (map fst (processes ?s'))" "distinct (map fst (fds ?s'))"
    using ds by (simp_all add: register_process_def distinct_update)
  have po: "proc_ok ?s' r t" if r: "map_of (processes ?s') r = Some t" for r t
  proof (cases "r = ppid q")
    case True
    with r have "t = (stdin q, stdout q, stderr q)" by (simp add: register_process_maps)
    with True f show ?thesis
      by (simp add: proc_ok_iff register_process_maps)
  next
    case False
    obtain i out err where t: "t = (i, out, err)" by (cases t)
    with r False have r': "map_of (processes s) r = Some (i, out, err)"
      by (simp add: register_process_maps)
    from fr [OF r'] have n: "i \<noteq> stdin q" "i \<noteq> stdout q" "i \<noteq> stderr q"
      "out \<noteq> stdin q" "out \<noteq> stdout q" "out \<noteq> stderr q"
      "err \<noteq> stdin q" "err \<noteq> stdout q" "err \<noteq> stderr q" by auto
    from wf_proc [OF assms(1) r'] have "proc_ok s r (i, out, err)" .
    with n False t show ?thesis
      by (simp add: proc_ok_iff register_process_maps)
  qed
  have fo: "fd_ok ?s' x r" if x: "map_of (fds ?s') x = Some r" for x r
  proof (cases "x = stderr q \<or> x = stdout q \<or> x = stdin q")
    case True
    with x have "r = ppid q" by (simp add: register_process_maps)
    with True f FD_distinct show ?thesis
      by (auto simp add: fd_ok_iff register_process_maps)
  next
    case False
    with x have x': "map_of (fds s) x = Some r" by (simp add: register_process_maps)
    from wf_fd [OF assms(1) x'] obtain ty where ty: "map_of (fdtype s) x = Some ty"
      "ty = FDOUT \<or> ty = FDERR \<Longrightarrow>
         \<exists>i out err. map_of (processes s) r = Some (i, out, err) \<and> (x = out \<or> x = err)"
      unfolding fd_ok_iff by blast
    have "\<exists>i out err. map_of (processes ?s') r = Some (i, out, err) \<and> (x = out \<or> x = err)"
      if "ty = FDOUT \<or> ty = FDERR"
    proof -
      from ty(2) [OF that] obtain i out err where
        *: "map_of (processes s) r = Some (i, out, err)" "x = out \<or> x = err" by blast
      with f(2) have "r \<noteq> ppid q" by auto
      with * show ?thesis by (simp add: register_process_maps)
    qed
    with False ty(1) show ?thesis
      unfolding fd_ok_iff by (simp add: register_process_maps)
  qed
  show ?thesis
    unfolding wf_iff using d po fo by blast
qed


lemma role_FDIN_not_watched: "map_of (fdtype s) i = Some FDIN \<Longrightarrow> \<not> watched s i"
  using FD_distinct by (auto simp add: watched_def split: option.splits)

lemma wait_keeps_input:
  fixes s :: manager and c :: "fd list" and sched :: "poll_outcome list"
  assumes "well_formed s" "map_of (fds s) i = Some p" "map_of (fdtype s) i = Some FDIN"
  defines "st' \<equiv> snd (wait sched (s, c))"
  shows "well_formed (fst st') \<and> map_of (fds (fst st')) i = Some p
    \<and> map_of (fdtype (fst st')) i = Some FDIN \<and> (\<exists>new. snd st' = new @ c \<and> i \<notin> set new)"
proof -
  define P :: "state \<Rightarrow> bool" where "P = (\<lambda>st. well_formed (fst st)
     \<and> map_of (fds (fst st)) i = Some p \<and> map_of (fdtype (fst st)) i = Some FDIN
     \<and> (\<exists>new. snd st = new @ c \<and> i \<notin> set new))"
  have step: "P (s2, c2)"
    if P: "P (s1, c1)" and a: "map_of (fds s1) fd = None \<or> watched s1 fd"
      and d: "dispatch (fd, state, rd) (s1, c1) = (r, (s2, c2))"
    for fd state rd s1 c1 r s2 c2
  proof -
    from P have w: "well_formed s1" and i: "map_of (fds s1) i = Some p"
      and ty: "map_of (fdtype s1) i = Some FDIN"
      and cl: "\<exists>new. c1 = new @ c \<and> i \<notin> set new"
      by (simp_all add: P_def)
    from a i role_FDIN_not_watched [OF ty] have ne: "fd \<noteq> i" by auto
    have 1: "well_formed s2" using dispatch_wf [OF w a d] .
    have 2: "map_of (fds s2) i = Some p" using dispatch_fds [OF d, of i] ne i by auto
    have 3: "map_of (fdtype s2) i = Some FDIN" using dispatch_frame [OF d] ty by simp
    from cl obtain new where new: "c1 = new @ c" "i \<notin> set new" by blast
    from dispatch_closed [OF w d] have "c2 = new @ c \<or> c2 = (fd # new) @ c"
      using new(1) by auto
    with new(2) ne have 4: "\<exists>new. c2 = new @ c \<and> i \<notin> set new"
      by (metis set_ConsD)
    from 1 2 3 4 show ?thesis by (simp add: P_def)
  qed
  have "P (s, c)" using assms(1,2,3) by (simp add: P_def)
  from wait_invariant [where P = P and sched = sched, OF step this]
  show ?thesis by (simp add: P_def st'_def)
qed

text \<open>
  C4: the input descriptor of a tracked process is left alone by every operation. Whatever
  the schedule, when \<^verbatim>\<open>wait\<close> stops (returned, raised, or still running), the
  registration list of line 96 does not hold it, it is still registered in \<open>fds\<close> under
  its pid and counts in the test of line 111, and the loop has closed no file object of
  that descriptor. \<^verbatim>\<open>execute\<close> of a new process does not touch it either and leaves a
  well-formed manager, so the same holds through any sequence of the two operations.
\<close>

theorem input_endpoint_is_never_touched:
  assumes "well_formed s" and "map_of (processes s) p = Some (i, out, err)"
  shows "(\<forall>ws. watch (fst (snd (wait sched (s, c)))) = Return ws \<longrightarrow> i \<notin> set ws)
    \<and> map_of (fds (fst (snd (wait sched (s, c))))) i = Some p
    \<and> truthy (fst (snd (wait sched (s, c)))) i
    \<and> (\<exists>new. snd (snd (wait sched (s, c))) = new @ c \<and> i \<notin> set new)
    \<and> well_formed (fst (snd (wait sched (s, c))))
    \<and> (fresh q s \<longrightarrow>
         (\<forall>ws. watch (register_process q s) = Return ws \<longrightarrow> i \<notin> set ws)
         \<and> map_of (fds (register_process q s)) i = Some p
         \<and> map_of (processes (register_process q s)) p = Some (i, out, err)
         \<and> well_formed (register_process q s))"
proof -
  from wf_proc [OF assms] have ok: "p \<noteq> 0" "map_of (fds s) i = Some p"
    "map_of (fdtype s) i = Some FDIN"
    by (simp_all add: proc_ok_iff)
  let ?s' = "fst (snd (wait sched (s, c)))"
  from wait_keeps_input [OF assms(1) ok(2,3), of sched c]
  have k: "well_formed ?s'" "map_of (fds ?s') i = Some p" "map_of (fdtype ?s') i = Some FDIN"
    "\<exists>new. snd (snd (wait sched (s, c))) = new @ c \<and> i \<notin> set new"
    by simp_all
  have A: "\<forall>ws. watch ?s' = Return ws \<longrightarrow> i \<notin> set ws"
    using watch_watched [of ?s' _ i] role_FDIN_not_watched [OF k(3)] by blast
  have B: "truthy ?s' i" using k(2) ok(1) by (simp add: truthy_def)
  have C: "(\<forall>ws. watch (register_process q s) = Return ws \<longrightarrow> i \<notin> set ws)
         \<and> map_of (fds (register_process q s)) i = Some p
         \<and> map_of (processes (register_process q s)) p = Some (i, out, err)
         \<and> well_formed (register_process q s)" if f: "fresh q s"
  proof -
    from assms(1) have "distinct (map fst (processes s))" by (simp add: wf_iff)
    from f [unfolded fresh_iff [OF this]] assms(2)
    have n: "i \<noteq> stdin q" "i \<noteq> stdout q" "i \<noteq> stderr q" "p \<noteq> ppid q"
      by auto
    have ty: "map_of (fdtype (register_process q s)) i = Some FDIN"
      using n ok(3) by (simp add: register_process_maps)
    have "\<forall>ws. watch (register_process q s) = Return ws \<longrightarrow> i \<notin> set ws"
      using watch_watched [of "register_process q s" _ i] role_FDIN_not_watched [OF ty] by blast
    moreover have "map_of (fds (register_process q s)) i = Some p"
      using n ok(2) by (simp add: register_process_maps)
    moreover have "map_of (processes (register_process q s)) p = Some (i, out, err)"
      using n assms(2) by (simp add: register_process_maps)
    ultimately show ?thesis
      using well_formed_register_process [OF assms(1) f] by simp
  qed
  from A B C k show ?thesis by simp
qed

lemma fresh_proc101: "fresh proc101 one_process"
  by (simp add: fresh_def proc101_def one_process_eq)

theorem input_endpoint_is_never_touched_witness:
  "well_formed one_process \<and> map_of (processes one_process) 100 = Some (5, 6, 8)
   \<and> fresh proc101 one_process
   \<and> map_of (fds (fst (snd (wait [Ready [(6, EPOLLHUP, Inr []), (8, EPOLLHUP, Inr [])]]
         (one_process, []))))) 5 = Some 100
   \<and> map_of (fds (register_process proc101 one_process)) 5 = Some 100
   \<and> well_formed (register_process proc101 one_process)"
proof -
  have w: "well_formed one_process" by (rule well_formed_one_process)
  have p: "map_of (processes one_process) 100 = Some (5, 6, 8)" by (simp add: one_process_eq)
  note f = fresh_proc101
  from input_endpoint_is_never_touched [OF w p,
      where sched = "[Ready [(6, EPOLLHUP, Inr []), (8, EPOLLHUP, Inr [])]]" and c = "[]" and q = proc101]
    w p f
  show ?thesis by simp
qed


subsection \<open>A failing poller\<close>

lemma wait_append_Blocked:
  "wait pre st = (Blocked, st1) \<Longrightarrow> wait (pre @ rest) st = wait rest st1"
proof (induction pre arbitrary: st)
  case Nil
  then have "processes (fst st) \<noteq> []" "st1 = st" by (auto split: if_splits)
  then show ?case by (cases rest) simp_all
next
  case (Cons po pre)
  obtain r st2 where it: "iteration po st = (r, st2)" by (metis prod.exhaust)
  show ?case
  proof (cases "processes (fst st) = []")
    case True
    with Cons.prems show ?thesis by simp
  next
    case False
    show ?thesis
    proof (cases r)
      case (Raise e)
      with False it Cons.prems show ?thesis by simp
    next
      case (Return u)
      with False it Cons.prems have "wait pre st2 = (Blocked, st1)" by simp
      from Cons.IH [OF this] False it Return show ?thesis by simp
    qed
  qed
qed

lemma watch_list_Raise: "watch_list ft xs = Raise e \<Longrightarrow> e = KeyError"
  by (induction xs) (auto split: option.splits outcome.splits)

lemma watch_list_Return:
  "\<forall>x\<in>set xs. map_of ft x \<noteq> None \<Longrightarrow> \<exists>ws. watch_list ft xs = Return ws"
  by (induction xs) auto

lemma well_formed_watch:
  assumes "well_formed s"
  shows "\<exists>ws. watch s = Return ws"
proof -
  have "map_of (fdtype s) x \<noteq> None" if "x \<in> set (map fst (fds s))" for x
  proof -
    from that obtain p where "map_of (fds s) x = Some p"
      by (metis domIff dom_map_of_conv_image_fst not_Some_eq set_map)
    from wf_fd [OF assms this] show ?thesis by (auto simp add: fd_ok_iff)
  qed
  then show ?thesis
    unfolding watch_def by (intro watch_list_Return) blast
qed

lemma iteration_fails:
  assumes "po = CreateFails e \<or> po = PollFails e"
  shows "snd (iteration po st) = st
    \<and> (fst (iteration po st) = Raise e
       \<or> (po = PollFails e \<and> watch (fst st) = Raise KeyError
           \<and> fst (iteration po st) = Raise KeyError))"
proof (cases "watch (fst st)")
  case (Return ws)
  with assms show ?thesis by (auto simp add: iteration_def)
next
  case (Raise e')
  then have "e' = KeyError" unfolding watch_def by (rule watch_list_Raise)
  with Raise assms show ?thesis by (auto simp add: iteration_def)
qed

text \<open>
  C8: when the poller fails in some turn of the loop, \<^verbatim>\<open>wait\<close> raises and the manager
  is the one the completed turns have left: every buffer holds what was captured before
  the failure. The exception is the poller's, unless the failure comes after line 96 and
  line 96 itself raises \<^verbatim>\<open>KeyError\<close>, which a well-formed manager excludes.
\<close>

theorem poll_failure_keeps_buffers:
  assumes "wait pre st = (Blocked, st1)" and "po = CreateFails e \<or> po = PollFails e"
  shows "snd (wait (pre @ po # rest) st) = st1
    \<and> data (fst (snd (wait (pre @ po # rest) st))) = data (fst st1)
    \<and> (fst (wait (pre @ po # rest) st) = Raised e
       \<or> (po = PollFails e \<and> watch (fst st1) = Raise KeyError
           \<and> fst (wait (pre @ po # rest) st) = Raised KeyError))
    \<and> (well_formed (fst st1) \<longrightarrow> fst (wait (pre @ po # rest) st) = Raised e)"
proof -
  from assms(1) have ne: "processes (fst st1) \<noteq> []"
    using wait_Blocked [of pre st] by simp
  obtain r st2 where it: "iteration po st1 = (r, st2)" by (metis prod.exhaust)
  from iteration_fails [OF assms(2), of st1] it
  have f: "st2 = st1" "r = Raise e \<or> (po = PollFails e \<and> watch (fst st1) = Raise KeyError \<and> r = Raise KeyError)"
    by simp_all
  have w: "wait (pre @ po # rest) st = wait (po # rest) st1"
    using assms(1) by (rule wait_append_Blocked)
  from f(2) obtain e' where e': "r = Raise e'" by auto
  with ne it f(1) have v: "wait (po # rest) st1 = (Raised e', st1)" by simp
  have "e' = e" if "well_formed (fst st1)"
    using well_formed_watch [OF that] f(2) e' by auto
  with f(2) e' show ?thesis
    unfolding w v by auto
qed

lemma wait_example_reads:
  "wait [Ready [(6, READ, Inr ''out'')]] (one_process, []) =
     (Blocked, (one_process\<lparr>data := [(Some 100, ''out'')]\<rparr>, []))"
  by (simp add: one_process_eq iteration_def watch_def active_def dispatch_def read_or_close_def
      append_data_def mask_vals)

theorem poll_failure_keeps_buffers_witness:
  "wait [Ready [(6, READ, Inr ''out'')]] (one_process, []) =
     (Blocked, (one_process\<lparr>data := [(Some 100, ''out'')]\<rparr>, []))
   \<and> wait ([Ready [(6, READ, Inr ''out'')]] @ PollFails IOError # []) (one_process, []) =
       (Raised IOError, (one_process\<lparr>data := [(Some 100, ''out'')]\<rparr>, []))"
proof -
  have w: "well_formed (one_process\<lparr>data := [(Some 100, ''out'')]\<rparr>)"
    using well_formed_one_process wf_cong [of "one_process\<lparr>data := [(Some 100, ''out'')]\<rparr>" one_process]
    by simp
  from poll_failure_keeps_buffers [OF wait_example_reads, of "PollFails IOError" IOError "[]"] w
  show ?thesis
    by (simp add: wait_example_reads prod_eq_iff del: wait.simps)
qed


subsection \<open>What retirement removes\<close>

lemma delete_removes_only:
  "map_of al p = Some t \<Longrightarrow> map_of (AList.delete q al) p = None \<Longrightarrow> q = p"
  by (simp add: AList.delete_conv' split: if_splits)

lemma end_of_stream_retirement:
  assumes "end_of_stream fd s = (r, s')"
    and "map_of (processes s) p = Some t" and "map_of (processes s') p = None"
  shows "processes s' = AList.delete p (processes s)
    \<and> map_of (processgbprot s') p = None
    \<and> (\<forall>q. q \<noteq> p \<longrightarrow> map_of (processgbprot s') q = map_of (processgbprot s) q)
    \<and> data s' = data s \<and> fdtype s' = fdtype s \<and> cwd s' = cwd s
    \<and> fds s' = AList.delete fd (fds s) \<and> map_of (fds s) fd = Some p"
  using assms(1)
proof (cases rule: end_of_stream_cases)
  case nokey
  with assms(2,3) show ?thesis by simp
next
  case (noproc p')
  with assms(2,3) show ?thesis by simp
next
  case (keep p' t')
  with assms(2,3) show ?thesis by simp
next
  case (retire p' t')
  with assms(2,3) have "p' = p" by (auto dest: delete_removes_only)
  with retire show ?thesis by (simp add: AList.delete_conv')
next
  case (retire_nogb p' t')
  with assms(2,3) have "p' = p" by (auto dest: delete_removes_only)
  with retire_nogb show ?thesis by simp
qed

text \<open>
  C5, as the code has it: the event that retires a process removes the process from
  \<open>processes\<close> and from \<open>processgbprot\<close> and leaves every buffer as it was. It does not
  clear the registries: \<open>fdtype\<close> is unchanged, and \<open>fds\<close> loses only the descriptor
  whose end of stream was seen, so every other descriptor registered before is still
  registered (the input descriptor of the retired process among them).
\<close>

theorem retirement_keeps_buffers_and_registries:
  assumes "dispatch (fd, state, rd) (s, c) = (r, (s', c'))"
    and "map_of (processes s) p = Some t" and "map_of (processes s') p = None"
  shows "processes s' = AList.delete p (processes s)
    \<and> map_of (processgbprot s') p = None
    \<and> (\<forall>q. q \<noteq> p \<longrightarrow> map_of (processgbprot s') q = map_of (processgbprot s) q)
    \<and> data s' = data s \<and> fdtype s' = fdtype s \<and> cwd s' = cwd s
    \<and> fds s' = AList.delete fd (fds s) \<and> map_of (fds s) fd = Some p
    \<and> (\<forall>x. x \<noteq> fd \<longrightarrow> map_of (fds s') x = map_of (fds s) x)"
proof -
  have "end_of_stream fd s = (r, s')"
    using assms(1)
  proof (cases rule: dispatch_cases)
    case (raise e)
    with assms(2,3) show ?thesis by simp
  next
    case (bytes d)
    with assms(2,3) show ?thesis by (simp add: append_data_def)
  qed
  from end_of_stream_retirement [OF this assms(2,3)] show ?thesis
    by (simp add: AList.delete_conv')
qed

lemma retirement_example:
  "dispatch (8, EPOLLHUP, Inr []) (one_process\<lparr>fds := [(5, 100), (8, 100)]\<rparr>, [6]) =
     (Return (), (\<lparr>cwd = ''.'', processes = [], processgbprot = [], fds = [(5, 100)],
        fdtype = [(5, 1), (6, 4), (8, 8216)], data = []\<rparr>, [8, 6]))"
  by (simp add: one_process_eq dispatch_def read_or_close_def end_of_stream_def remaining_def
      truthy_def mask_vals)

theorem retirement_keeps_buffers_and_registries_witness:
  "dispatch (8, EPOLLHUP, Inr []) (one_process\<lparr>fds := [(5, 100), (8, 100)]\<rparr>, [6]) =
     (Return (), (\<lparr>cwd = ''.'', processes = [], processgbprot = [], fds = [(5, 100)],
        fdtype = [(5, 1), (6, 4), (8, 8216)], data = []\<rparr>, [8, 6]))
   \<and> map_of (processes (one_process\<lparr>fds := [(5, 100), (8, 100)]\<rparr>)) 100 = Some (5, 6, 8)
   \<and> map_of [] (100 :: pid) = (None :: (fd \<times> fd \<times> fd) option)
   \<and> fdtype (one_process\<lparr>fds := [(5, 100), (8, 100)]\<rparr>) = [(5, 1), (6, 4), (8, 8216)]
   \<and> AList.delete 8 (fds (one_process\<lparr>fds := [(5, 100), (8, 100)]\<rparr>)) = [(5, 100)]"
proof -
  have p: "map_of (processes (one_process\<lparr>fds := [(5, 100), (8, 100)]\<rparr>)) 100 = Some (5, 6, 8)"
    by (simp add: one_process_eq)
  have n: "map_of (processes \<lparr>cwd = ''.'', processes = [], processgbprot = [], fds = [(5, 100)],
        fdtype = [(5, 1), (6, 4), (8, 8216)], data = []\<rparr>) 100 = None"
    by simp
  from retirement_keeps_buffers_and_registries [OF retirement_example p n] retirement_example p
  show ?thesis by (simp add: one_process_eq)
qed

text \<open>
  C5 as stated fails: after the run that retires process 100, its input descriptor 5 is
  still a key of \<open>fds\<close> and all three of its descriptors still have their role in
  \<open>fdtype\<close>.
\<close>

theorem retirement_leaves_registry_entries:
  "processes (fst (snd (wait [Ready [(6, EPOLLHUP, Inr []), (8, EPOLLHUP, Inr [])]] (one_process, [])))) = []
   \<and> map_of (fds (fst (snd (wait [Ready [(6, EPOLLHUP, Inr []), (8, EPOLLHUP, Inr [])]] (one_process, []))))) 5 = Some 100
   \<and> map_of (fdtype (fst (snd (wait [Ready [(6, EPOLLHUP, Inr []), (8, EPOLLHUP, Inr [])]] (one_process, []))))) 5 = Some FDIN
   \<and> map_of (fdtype (fst (snd (wait [Ready [(6, EPOLLHUP, Inr []), (8, EPOLLHUP, Inr [])]] (one_process, []))))) 6 = Some FDOUT
   \<and> map_of (fdtype (fst (snd (wait [Ready [(6, EPOLLHUP, Inr []), (8, EPOLLHUP, Inr [])]] (one_process, []))))) 8 = Some FDERR"
  unfolding wait_example_returns by (simp add: mask_vals)

subsection \<open>Output that is never read\<close>

text \<open>
  C3 at a concrete run: process 100 has written \<^verbatim>\<open>out\<close> to its output pipe and
  \<^verbatim>\<open>err\<close> to its error pipe and has exited before the first poll, so the poller reports
  both descriptors with the mask \<open>EPOLLIN OR EPOLLHUP\<close>. \<^verbatim>\<open>wait\<close> returns, the process is
  retired, and no buffer exists: all six bytes are lost.
\<close>

theorem combined_mask_loses_output:
  "wait [Ready [(6, EPOLLIN OR EPOLLHUP, Inr ''out''), (8, EPOLLIN OR EPOLLHUP, Inr ''err'')]]
     (one_process, []) =
     (Returned, (\<lparr>cwd = ''.'', processes = [], processgbprot = [], fds = [(5, 100)],
        fdtype = [(5, 1), (6, 4), (8, 8216)], data = []\<rparr>, []))"
  by (simp add: one_process_eq iteration_def watch_def active_def dispatch_def read_or_close_def
      end_of_stream_def remaining_def truthy_def mask_vals EPOLLIN_def)

text \<open>
  The same bytes arrive when the poller reports \<open>READ\<close> alone first and the hang-ups in
  a later turn.
\<close>

lemma wait_example_collects:
  "wait [Ready [(6, READ, Inr ''out''), (8, READ, Inr ''err'')],
         Ready [(6, EPOLLHUP, Inr []), (8, EPOLLHUP, Inr [])]] (one_process, []) =
     (Returned, (\<lparr>cwd = ''.'', processes = [], processgbprot = [], fds = [(5, 100)],
        fdtype = [(5, 1), (6, 4), (8, 8216)], data = [(Some 100, ''outerr'')]\<rparr>, [8, 6]))"
  by (simp add: one_process_eq iteration_def watch_def active_def dispatch_def read_or_close_def
      end_of_stream_def remaining_def truthy_def append_data_def mask_vals)

end
